theory Spec2Isabelle
  imports Main "HOL-Library.AList"
begin

section \<open>Values and identities\<close>

text \<open>
  The binding layer \<^verbatim>\<open>src/react.ts\<close> (the hook \<^verbatim>\<open>useSnapshot\<close>) is the only
  TypeScript source of the repository at hand. It imports \<^verbatim>\<open>getVersion\<close>,
  \<^verbatim>\<open>snapshot\<close> and \<^verbatim>\<open>subscribe\<close> from \<^verbatim>\<open>./vanilla\<close> and
  \<^verbatim>\<open>createProxy\<close>, \<^verbatim>\<open>isChanged\<close> from \<^verbatim>\<open>proxy-compare\<close>; neither module is
  among the sources, so the engine below follows the specification and every definition of
  it says so. JavaScript object identity is an address: two references are the same object
  exactly when their addresses are equal.
\<close>

type_synonym key = string
type_synonym addr = nat      \<comment> \<open>identity of a wrapped state node\<close>
type_synonym saddr = nat     \<comment> \<open>identity of a snapshot object\<close>
type_synonym oref = nat      \<comment> \<open>identity of an opaque reference\<close>
type_synonym subid = nat     \<comment> \<open>one registration of a listener\<close>
type_synonym callback = nat  \<comment> \<open>identity of a callback function\<close>

text \<open>Primitive values; numbers are integers here, compared by value.\<close>

datatype prim = Undefined | Null | Boolean bool | Num int | Str string

text \<open>
  Modelled from the spec: a value stored in a wrapped state node (section 3): a primitive,
  an opaque reference kept by identity, or a nested wrapped state node.
\<close>

datatype val = Prim prim | Opaque oref | Wrapped addr

text \<open>
  Modelled from the spec: a value inside a snapshot (section 4.4): primitives are copied,
  opaque references are copied by reference, nested nodes appear as their own snapshot
  objects.
\<close>

datatype sval = SPrim prim | SOpaque oref | SObj saddr

text \<open>
  Modelled from the spec: a plain nested structure before it is wrapped (section 4.1).
\<close>

datatype plain = PPrim prim | PRef oref | PObj "(key \<times> plain) list"

section \<open>The engine state\<close>

text \<open>
  Modelled from the spec: the wrapped state node of \<^verbatim>\<open>vanilla.ts\<close> (sections 2 and 3):
  its own properties in insertion order, its version, the parent that owns it (the
  single-owner ancestor link), its listeners in registration order (the flag is the
  immediate delivery mode) and the snapshot cached against a version.
\<close>

record node =
  props :: "(key \<times> val) list"
  version :: nat
  parent :: "addr option"
  listeners :: "(subid \<times> callback \<times> bool) list"
  snapCache :: "(nat \<times> saddr) option"

text \<open>
  Modelled from the spec: the state of the engine of \<^verbatim>\<open>vanilla.ts\<close>: the wrapped nodes
  (a node's address is its index), the snapshot objects built so far (likewise), the
  counter behind subscription identities, the batched notifications queued for the
  deferred step, and the log of callback invocations, oldest first.
\<close>

record store =
  nodes :: "node list"
  snaps :: "(key \<times> sval) list list"
  nextSub :: subid
  pending :: "(subid \<times> callback) list"
  delivered :: "(subid \<times> callback) list"

text \<open>Modelled from the spec: the engine before anything is wrapped.\<close>

definition empty_store :: store where
  "empty_store = \<lparr>nodes = [], snaps = [], nextSub = 0, pending = [], delivered = []\<rparr>"

section \<open>Interception layer: wrapping and writing\<close>

text \<open>
  Modelled from the spec: \<^verbatim>\<open>wrap(value)\<close> of section 4.1. A plain structure becomes a
  new wrapped node at version 0 that records the parent holding it, and its nested plain
  structures are wrapped in turn; a primitive or an opaque reference passes through.
\<close>

fun wrap :: "store \<Rightarrow> addr option \<Rightarrow> plain \<Rightarrow> val \<times> store"
  and wrap_props :: "store \<Rightarrow> addr \<Rightarrow> (key \<times> plain) list \<Rightarrow> (key \<times> val) list \<times> store" where
  "wrap s par (PPrim p) = (Prim p, s)"
| "wrap s par (PRef r) = (Opaque r, s)"
| "wrap s par (PObj kvs) =
     (let n = length (nodes s);
          s1 = s\<lparr>nodes := nodes s @
                 [\<lparr>props = [], version = 0, parent = par, listeners = [], snapCache = None\<rparr>]\<rparr>;
          (ps, s2) = wrap_props s1 n kvs
      in (Wrapped n, s2\<lparr>nodes := (nodes s2)[n := (nodes s2 ! n)\<lparr>props := ps\<rparr>]\<rparr>))"
| "wrap_props s n [] = ([], s)"
| "wrap_props s n ((k, x) # kvs) =
     (let (v, s1) = wrap s (Some n) x;
          (vs, s2) = wrap_props s1 n kvs
      in ((k, v) # vs, s2))"

text \<open>
  Modelled from the spec: \<^verbatim>\<open>getVersion(node)\<close> of section 4.2: the version of a wrapped
  node, and undefined (never an error) for anything else.
\<close>

definition getVersion :: "store \<Rightarrow> addr \<Rightarrow> nat option" where
  "getVersion s n = (if n < length (nodes s) then Some (version (nodes s ! n)) else None)"

text \<open>
  Modelled from the spec: the ownership chain of section 3: the node itself, then the
  parent recorded for it, and so on upward. A node met a second time ends the walk, so the
  walk is finite on cyclic structures too.
\<close>

function chain :: "store \<Rightarrow> addr list \<Rightarrow> addr \<Rightarrow> addr list" where
  "chain s seen n =
     (if n < length (nodes s) \<and> n \<notin> set seen then
        n # (case parent (nodes s ! n) of None \<Rightarrow> [] | Some p \<Rightarrow> chain s (n # seen) p)
      else [])"
  by pat_completeness auto

termination
proof (relation "measure (\<lambda>(s, seen, n). card ({..<length (nodes s)} - set seen))")
  show "wf (measure (\<lambda>(s, seen, n). card ({..<length (nodes s)} - set seen)))"
    by simp
next
  fix s :: store and seen :: "addr list" and n p :: addr
  assume "n < length (nodes s) \<and> n \<notin> set seen"
  then have "{..<length (nodes s)} - set (n # seen) \<subset> {..<length (nodes s)} - set seen"
    by auto
  then have "card ({..<length (nodes s)} - set (n # seen)) < card ({..<length (nodes s)} - set seen)"
    by (intro psubset_card_mono) simp_all
  then show "((s, n # seen, p), (s, seen, n))
               \<in> measure (\<lambda>(s, seen, n). card ({..<length (nodes s)} - set seen))"
    by simp
qed

declare chain.simps [simp del]

text \<open>
  The ancestors of a node \<open>n\<close> along the ownership chain, \<open>n\<close> itself included, as
  a relation: \<open>ancestor_of s n a\<close> says that \<open>a\<close> is reached from \<open>n\<close> by following
  parent links between wrapped nodes.
\<close>

inductive ancestor_of :: "store \<Rightarrow> addr \<Rightarrow> addr \<Rightarrow> bool" for s :: store and n :: addr where
  self: "n < length (nodes s) \<Longrightarrow> ancestor_of s n n"
| up: "ancestor_of s n m \<Longrightarrow> parent (nodes s ! m) = Some p \<Longrightarrow> p < length (nodes s)
        \<Longrightarrow> ancestor_of s n p"

text \<open>Modelled from the spec: one version bump of one node (section 4.1).\<close>

definition bump :: "addr \<Rightarrow> store \<Rightarrow> store" where
  "bump n s = s\<lparr>nodes := (nodes s)[n := (nodes s ! n)\<lparr>version := Suc (version (nodes s ! n))\<rparr>]\<rparr>"

text \<open>
  Modelled from the spec: delivery to one listener (section 4.3). An immediate listener is
  invoked at once; a batched one is queued for the deferred step unless it is queued
  already.
\<close>

definition deliver :: "subid \<times> callback \<times> bool \<Rightarrow> store \<Rightarrow> store" where
  "deliver l s =
     (case l of (i, cb, immediate) \<Rightarrow>
        if immediate then s\<lparr>delivered := delivered s @ [(i, cb)]\<rparr>
        else if (i, cb) \<in> set (pending s) then s
        else s\<lparr>pending := pending s @ [(i, cb)]\<rparr>)"

text \<open>
  Modelled from the spec: firing the listeners of one node, in registration order
  (section 4.3).
\<close>

definition notify :: "addr \<Rightarrow> store \<Rightarrow> store" where
  "notify n s = fold deliver (listeners (nodes s ! n)) s"

text \<open>
  Modelled from the spec: the ancestor link of a node (section 4.1: "a node records which
  parent node(s) hold it"), and the test whether a property list still holds a child.
\<close>

definition set_parent :: "addr \<Rightarrow> addr option \<Rightarrow> store \<Rightarrow> store" where
  "set_parent c p s = s\<lparr>nodes := (nodes s)[c := (nodes s ! c)\<lparr>parent := p\<rparr>]\<rparr>"

definition holds :: "(key \<times> val) list \<Rightarrow> addr \<Rightarrow> bool" where
  "holds ps c = (Wrapped c \<in> snd ` set ps)"

text \<open>
  Modelled from the spec: applying a write to the node (section 4.1): the property is
  stored, the ancestor link of a child that the node no longer holds is removed, and a
  child that is stored records the node as its parent.
\<close>

definition store_prop :: "store \<Rightarrow> addr \<Rightarrow> key \<Rightarrow> val \<Rightarrow> store" where
  "store_prop s n k v =
     (let old = map_of (props (nodes s ! n)) k;
          ps = AList.update k v (props (nodes s ! n));
          s1 = s\<lparr>nodes := (nodes s)[n := (nodes s ! n)\<lparr>props := ps\<rparr>]\<rparr>;
          s2 = (case old of
                  Some (Wrapped c) \<Rightarrow>
                    if c < length (nodes s1) \<and> \<not> holds ps c \<and> parent (nodes s1 ! c) = Some n
                    then set_parent c None s1 else s1
                | _ \<Rightarrow> s1)
      in (case v of
            Wrapped c \<Rightarrow> if c < length (nodes s2) then set_parent c (Some n) s2 else s2
          | _ \<Rightarrow> s2))"

text \<open>
  Modelled from the spec: writing a property of a wrapped node (section 4.1). A value
  identical to the existing one (by identity, primitives by value) makes the write a
  no-op. Otherwise the write is applied, the version of the node and of every node of its
  ownership chain is bumped, and their listeners fire. An address that is no wrapped node
  is outside the specification and leaves the state as it is.
\<close>

definition write_prop :: "store \<Rightarrow> addr \<Rightarrow> key \<Rightarrow> val \<Rightarrow> store" where
  "write_prop s n k v =
     (if n < length (nodes s) then
        (if map_of (props (nodes s ! n)) k = Some v then s
         else (let up = chain s [] n
               in fold notify up (fold bump up (store_prop s n k v))))
      else s)"

text \<open>
  Modelled from the spec: writing a plain value (section 4.1): a plain structure is
  wrapped under the node before it is stored, so it is never identical to what was there;
  and deleting a property, which follows the write path with the undefined value.
\<close>

definition assign :: "store \<Rightarrow> addr \<Rightarrow> key \<Rightarrow> plain \<Rightarrow> store" where
  "assign s n k x = (case wrap s (Some n) x of (v, s') \<Rightarrow> write_prop s' n k v)"

definition delete_prop :: "store \<Rightarrow> addr \<Rightarrow> key \<Rightarrow> store" where
  "delete_prop s n k = write_prop s n k (Prim Undefined)"

section \<open>Listener registry\<close>

text \<open>
  Modelled from the spec: \<^verbatim>\<open>subscribe(node, callback, immediate)\<close> of section 4.3; the
  result identifies the registration, which is what the returned unsubscribe capability
  closes over.
\<close>

definition subscribe :: "store \<Rightarrow> addr \<Rightarrow> callback \<Rightarrow> bool \<Rightarrow> subid \<times> store" where
  "subscribe s n cb immediate =
     (nextSub s,
      if n < length (nodes s) then
        s\<lparr>nodes := (nodes s)[n := (nodes s ! n)
               \<lparr>listeners := listeners (nodes s ! n) @ [(nextSub s, cb, immediate)]\<rparr>],
          nextSub := Suc (nextSub s)\<rparr>
      else s\<lparr>nextSub := Suc (nextSub s)\<rparr>)"

text \<open>
  Modelled from the spec: the unsubscribe capability of section 4.3: the registration is
  removed, also from the queue of the deferred step; a second call changes nothing.
\<close>

definition unsubscribe :: "store \<Rightarrow> addr \<Rightarrow> subid \<Rightarrow> store" where
  "unsubscribe s n i =
     (if n < length (nodes s) then
        s\<lparr>nodes := (nodes s)[n := (nodes s ! n)
               \<lparr>listeners := filter (\<lambda>l. fst l \<noteq> i) (listeners (nodes s ! n))\<rparr>],
          pending := filter (\<lambda>q. fst q \<noteq> i) (pending s)\<rparr>
      else s)"

text \<open>
  Modelled from the spec: the deferred step of batched delivery (sections 4.3 and 5): at
  the end of the synchronous turn every queued callback is invoked once, and the queue is
  empty again.
\<close>

definition flush :: "store \<Rightarrow> store" where
  "flush s = s\<lparr>delivered := delivered s @ pending s, pending := []\<rparr>"

text \<open>
  Modelled from the spec: the mutations of one synchronous execution turn, applied in
  order (section 5).
\<close>

definition writes :: "(addr \<times> key \<times> val) list \<Rightarrow> store \<Rightarrow> store" where
  "writes ws s = fold (\<lambda>(n, k, v) s'. write_prop s' n k v) ws s"

text \<open>
  Modelled from the spec: one synchronous execution turn (section 5): the writes of the
  turn, then the deferred step.
\<close>

definition turn :: "store \<Rightarrow> (addr \<times> key \<times> val) list \<Rightarrow> store" where
  "turn s ws = flush (writes ws s)"

text \<open>
  Vocabulary for the notifications of one registration \<open>i\<close>: every listener of the
  state, what the deferred step holds for \<open>i\<close>, how often \<open>i\<close> has been invoked,
  that \<open>i\<close> is registered, wherever it is, as the batched callback \<open>cb\<close>, and that
  at most one notification for it is queued.
\<close>

definition all_listeners :: "store \<Rightarrow> (subid \<times> callback \<times> bool) list" where
  "all_listeners s = concat (map listeners (nodes s))"

definition registered_batched :: "store \<Rightarrow> subid \<Rightarrow> callback \<Rightarrow> bool" where
  "registered_batched s i cb = (\<forall>l\<in>set (all_listeners s). fst l = i \<longrightarrow> l = (i, cb, False))"

definition queued :: "store \<Rightarrow> subid \<Rightarrow> (subid \<times> callback) list" where
  "queued s i = filter (\<lambda>q. fst q = i) (pending s)"

definition deliveries :: "store \<Rightarrow> subid \<Rightarrow> nat" where
  "deliveries s i = length (filter (\<lambda>d. fst d = i) (delivered s))"

definition coalesced :: "store \<Rightarrow> subid \<Rightarrow> callback \<Rightarrow> bool" where
  "coalesced s i cb = (queued s i = [] \<or> queued s i = [(i, cb)])"

section \<open>Snapshot builder\<close>

text \<open>
  Modelled from the spec: the snapshot cached for a node at its current version, if any
  (section 4.4: "cached against the node's version").
\<close>

definition cached :: "node \<Rightarrow> saddr option" where
  "cached nd = (case snapCache nd of
                  None \<Rightarrow> None
                | Some (ver, sa) \<Rightarrow> if ver = version nd then Some sa else None)"

text \<open>The number of nodes without a current snapshot; it bounds the work of a build.\<close>

definition stale :: "store \<Rightarrow> nat" where
  "stale s = length (filter (\<lambda>nd. cached nd = None) (nodes s))"

text \<open>
  Modelled from the spec: the start of a build (section 4.4): a new snapshot object is
  allocated and cached against the node's version before the properties are visited, so
  that a node reachable from itself finds the snapshot in progress.
\<close>

definition begin_snapshot :: "store \<Rightarrow> addr \<Rightarrow> store" where
  "begin_snapshot s n =
     s\<lparr>snaps := snaps s @ [[]],
       nodes := (nodes s)[n := (nodes s ! n)
                  \<lparr>snapCache := Some (version (nodes s ! n), length (snaps s))\<rparr>]\<rparr>"

text \<open>
  Modelled from the spec: the end of a build (section 4.4): the properties collected are
  installed in the snapshot object allocated at the start.
\<close>

definition finish_snapshot :: "store \<Rightarrow> saddr \<Rightarrow> (key \<times> sval) list \<Rightarrow> store" where
  "finish_snapshot s sa svs = s\<lparr>snaps := (snaps s)[sa := svs]\<rparr>"

text \<open>
  Modelled from the spec: \<^verbatim>\<open>snapshot(node)\<close> of section 4.4. The snapshot cached at the
  node's current version is returned as it is; otherwise a new one is built: a property
  holding a wrapped node gets that node's snapshot, a primitive is copied, an opaque
  reference is copied by reference. What is not a wrapped node has no snapshot: the result
  is undefined.
\<close>

function (sequential) snapshot :: "store \<Rightarrow> addr \<Rightarrow> sval \<times> store"
  and snapshot_props :: "store \<Rightarrow> (key \<times> val) list \<Rightarrow> (key \<times> sval) list \<times> store" where
  "snapshot s n =
     (if n < length (nodes s) then
        (case cached (nodes s ! n) of
           Some sa \<Rightarrow> (SObj sa, s)
         | None \<Rightarrow>
             (let sa = length (snaps s);
                  (svs, s') = snapshot_props (begin_snapshot s n) (props (nodes s ! n))
              in (SObj sa, finish_snapshot s' sa svs)))
      else (SPrim Undefined, s))"
| "snapshot_props s [] = ([], s)"
| "snapshot_props s ((k, v) # kvs) =
     (let (sv, s1) = (case v of
                        Prim p \<Rightarrow> (SPrim p, s)
                      | Opaque r \<Rightarrow> (SOpaque r, s)
                      | Wrapped c \<Rightarrow> snapshot s c);
          (rest, s2) = snapshot_props s1 kvs
      in ((k, sv) # rest, s2))"
  by pat_completeness auto

lemma filter_update_less:
  "n < length xs \<Longrightarrow> P (xs ! n) \<Longrightarrow> \<not> P y \<Longrightarrow>
     length (filter P (xs[n := y])) < length (filter P xs)"
proof (induction xs arbitrary: n)
  case Nil
  then show ?case by simp
next
  case (Cons x xs)
  show ?case
  proof (cases n)
    case 0
    with Cons.prems show ?thesis by simp
  next
    case (Suc m)
    with Cons.prems Cons.IH[of m] show ?thesis by simp
  qed
qed

lemma stale_begin:
  assumes "n < length (nodes s)" "cached (nodes s ! n) = None"
  shows "stale (begin_snapshot s n) < stale s"
proof -
  have "cached ((nodes s ! n)\<lparr>snapCache := Some (version (nodes s ! n), length (snaps s))\<rparr>) \<noteq> None"
    by (simp add: cached_def)
  with assms show ?thesis
    unfolding stale_def begin_snapshot_def
    by (simp add: filter_update_less)
qed

lemma stale_finish: "stale (finish_snapshot s sa svs) = stale s"
  by (simp add: stale_def finish_snapshot_def)

lemma snapshot_stale_dom:
  "snapshot_snapshot_props_dom (Inl (s, n)) \<Longrightarrow> stale (snd (snapshot s n)) \<le> stale s"
  "snapshot_snapshot_props_dom (Inr (s, kvs)) \<Longrightarrow> stale (snd (snapshot_props s kvs)) \<le> stale s"
proof (induction s n and s kvs rule: snapshot_snapshot_props.pinduct)
  case (1 s n)
  show ?case
  proof (cases "n < length (nodes s) \<and> cached (nodes s ! n) = None")
    case False
    then show ?thesis using "1.hyps" by (auto simp: snapshot.psimps split: option.splits)
  next
    case True
    obtain svs s' where b: "snapshot_props (begin_snapshot s n) (props (nodes s ! n)) = (svs, s')"
      by (cases "snapshot_props (begin_snapshot s n) (props (nodes s ! n))")
    have "stale s' \<le> stale (begin_snapshot s n)"
      using "1.IH"[of "length (snaps s)"] True b by simp
    also have "\<dots> < stale s" using True by (simp add: stale_begin)
    finally have "stale s' \<le> stale s" by simp
    moreover have "snapshot s n = (SObj (length (snaps s)), finish_snapshot s' (length (snaps s)) svs)"
      using "1.hyps" True b by (simp add: snapshot.psimps Let_def)
    ultimately show ?thesis by (simp add: stale_finish)
  qed
next
  case (2 s)
  then show ?case by (simp add: snapshot_props.psimps)
next
  case (3 s k v kvs)
  obtain sv s1 where h: "(case v of Prim p \<Rightarrow> (SPrim p, s) | Opaque r \<Rightarrow> (SOpaque r, s)
                           | Wrapped c \<Rightarrow> snapshot s c) = (sv, s1)"
    by (cases "case v of Prim p \<Rightarrow> (SPrim p, s) | Opaque r \<Rightarrow> (SOpaque r, s)
                 | Wrapped c \<Rightarrow> snapshot s c")
  obtain rest s2 where r: "snapshot_props s1 kvs = (rest, s2)"
    by (cases "snapshot_props s1 kvs")
  have a: "stale s1 \<le> stale s"
  proof (cases v)
    case (Wrapped c)
    then show ?thesis using "3.IH"(1)[of c] h by simp
  qed (use h in auto)
  have "stale s2 \<le> stale s1"
    using "3.IH"(2)[OF h[symmetric] refl] r by simp
  with a have "stale s2 \<le> stale s" by simp
  moreover have "snapshot_props s ((k, v) # kvs) = ((k, sv) # rest, s2)"
    using "3.hyps" h r by (simp add: snapshot_props.psimps)
  ultimately show ?case by simp
qed

termination snapshot
  apply (relation "(\<lambda>x. case x of Inl (s, n) \<Rightarrow> stale s | Inr (s, kvs) \<Rightarrow> stale s) <*mlex*>
                   measure (\<lambda>x. case x of Inl (s, n) \<Rightarrow> 0 | Inr (s, kvs) \<Rightarrow> Suc (length kvs))")
     apply (simp add: wf_mlex)
    apply (simp add: mlex_less stale_begin)
   apply (simp add: mlex_leq)
  subgoal premises prems for s k v kvs x xa y
  proof -
    have "stale y \<le> stale s"
    proof (cases v)
      case (Wrapped c)
      have "stale (snd (snapshot s c)) \<le> stale s"
        using prems(3)[OF Wrapped] by (rule snapshot_stale_dom(1))
      moreover have "snapshot s c = (xa, y)" using prems(1,2) Wrapped by simp
      ultimately show ?thesis by simp
    qed (use prems in auto)
    then show ?thesis by (intro mlex_leq) simp_all
  qed
  done

declare snapshot.simps [simp del] snapshot_props.simps [simp del]

text \<open>
  What a run of the snapshot builder may change, as a relation between the state before
  and the state after: no node is added, no property and no version changes, a cache
  entry is either kept or is the new entry of a node that had no current snapshot and
  names a snapshot object allocated since, and the snapshot objects that existed are
  kept as they were.
\<close>

definition extends :: "store \<Rightarrow> store \<Rightarrow> bool" where
  "extends s s' \<longleftrightarrow>
     length (nodes s') = length (nodes s) \<and>
     (\<forall>m<length (nodes s).
        props (nodes s' ! m) = props (nodes s ! m) \<and>
        version (nodes s' ! m) = version (nodes s ! m) \<and>
        (snapCache (nodes s' ! m) = snapCache (nodes s ! m) \<or>
         cached (nodes s ! m) = None \<and>
         (\<exists>q. snapCache (nodes s' ! m) = Some (version (nodes s ! m), q) \<and> length (snaps s) \<le> q))) \<and>
     length (snaps s) \<le> length (snaps s') \<and>
     (\<forall>a<length (snaps s). snaps s' ! a = snaps s ! a)"

text \<open>
  The snapshot value that the builder stores for one property value, with the state it
  leaves: the three cases of the builder's loop.
\<close>

definition snapshot_val :: "store \<Rightarrow> val \<Rightarrow> sval \<times> store" where
  "snapshot_val s v = (case v of Prim p \<Rightarrow> (SPrim p, s) | Opaque r \<Rightarrow> (SOpaque r, s)
                        | Wrapped c \<Rightarrow> snapshot s c)"

text \<open>
  The snapshot value a stored value has without any building: a primitive or an opaque
  reference as it is, a wrapped node as the snapshot object cached at its current
  version, if there is one.
\<close>

definition current_sval :: "store \<Rightarrow> val \<Rightarrow> sval option" where
  "current_sval s v =
     (case v of
        Prim p \<Rightarrow> Some (SPrim p)
      | Opaque r \<Rightarrow> Some (SOpaque r)
      | Wrapped c \<Rightarrow> if c < length (nodes s) then map_option SObj (cached (nodes s ! c)) else None)"

text \<open>
  The snapshot object \<open>q\<close> is up to date for the node \<open>r\<close> at the key \<open>a\<close>: the
  object exists, and under \<open>a\<close> it holds what the property of \<open>r\<close> holds now (nothing,
  when \<open>r\<close> has no such property).
\<close>

definition entry_current :: "store \<Rightarrow> addr \<Rightarrow> saddr \<Rightarrow> key \<Rightarrow> bool" where
  "entry_current s r q a =
     (q < length (snaps s) \<and>
      (case map_of (props (nodes s ! r)) a of
         None \<Rightarrow> map_of (snaps s ! q) a = None
       | Some x \<Rightarrow> current_sval s x \<noteq> None \<and> map_of (snaps s ! q) a = current_sval s x))"

text \<open>
  The consumer's previous snapshot \<open>pa\<close> of the node \<open>r\<close> is up to date at the key
  \<open>a\<close>, and so is the snapshot currently cached for \<open>r\<close>, if there is one. After a
  first render the two are the same object.
\<close>

definition view_current :: "store \<Rightarrow> addr \<Rightarrow> saddr \<Rightarrow> key \<Rightarrow> bool" where
  "view_current s r pa a =
     (entry_current s r pa a \<and>
      (case cached (nodes s ! r) of None \<Rightarrow> True | Some q \<Rightarrow> entry_current s r q a))"

text \<open>
  The invariants of the snapshot caches (section 3): a cache entry was taken at a version
  the node has reached, it names a snapshot object that exists, and no two nodes cache the
  same snapshot object.
\<close>

definition cache_addrs :: "store \<Rightarrow> saddr list" where
  "cache_addrs s = concat (map (\<lambda>nd. case snapCache nd of None \<Rightarrow> [] | Some (ver, q) \<Rightarrow> [q]) (nodes s))"

definition caches_ok :: "store \<Rightarrow> bool" where
  "caches_ok s =
     (distinct (cache_addrs s) \<and>
      list_all (\<lambda>nd. case snapCache nd of None \<Rightarrow> True
                      | Some (ver, q) \<Rightarrow> ver \<le> version nd \<and> q < length (snaps s)) (nodes s))"

section \<open>Affected-path recorder and change comparator\<close>

text \<open>
  Modelled from the spec: the Affected Map of section 3: for a snapshot object visited,
  the keys read on it. A JavaScript \<^verbatim>\<open>WeakMap\<close> keyed by the object.
\<close>

type_synonym affected_map = "saddr \<rightharpoonup> key list"

text \<open>
  Modelled from the spec: recording one read (section 4.5): the accessed key is appended
  to the entry of the underlying object.
\<close>

definition record_key :: "affected_map \<Rightarrow> saddr \<Rightarrow> key \<Rightarrow> affected_map" where
  "record_key aff a k =
     aff(a \<mapsto> (case aff a of None \<Rightarrow> [k] | Some ks \<Rightarrow> if k \<in> set ks then ks else ks @ [k]))"

text \<open>The keys an affected map has recorded for an object.\<close>

definition keys_read :: "affected_map \<Rightarrow> saddr \<Rightarrow> key set" where
  "keys_read aff a = (case aff a of None \<Rightarrow> {} | Some ks \<Rightarrow> set ks)"

text \<open>
  Modelled from the spec: a value handed to the consumer (section 4.5): the
  read-instrumented view of a snapshot object, with an identity of its own, or a
  non-structural value, returned unwrapped.
\<close>

datatype view = View nat saddr | Bare sval

text \<open>
  Modelled from the spec: the consumer-scoped cache of section 4.5, from a snapshot object
  to the identity of its instrumented view, with the counter that names new views.
\<close>

record proxy_cache =
  views :: "saddr \<rightharpoonup> nat"
  nextView :: nat

text \<open>Modelled from the spec: a cache with no view yet, the \<^verbatim>\<open>new WeakMap()\<close> of line 185.\<close>

definition new_cache :: proxy_cache where
  "new_cache = \<lparr>views = Map.empty, nextView = 0\<rparr>"

text \<open>
  Modelled from the spec: \<^verbatim>\<open>createProxy\<close> of \<^verbatim>\<open>proxy-compare\<close>, the
  \<^verbatim>\<open>recordAccess\<close> of section 4.5: the view cached for the snapshot object is
  returned, a new view is created and cached otherwise, and a non-structural value is
  returned as it is.
\<close>

definition createProxy :: "sval \<Rightarrow> proxy_cache \<Rightarrow> view \<times> proxy_cache" where
  "createProxy sv c =
     (case sv of
        SObj a \<Rightarrow>
          (case views c a of
             Some i \<Rightarrow> (View i a, c)
           | None \<Rightarrow> (View (nextView c) a,
                      c\<lparr>views := (views c)(a \<mapsto> nextView c), nextView := Suc (nextView c)\<rparr>))
      | _ \<Rightarrow> (Bare sv, c))"

text \<open>
  Modelled from the spec: a property read through the view of the snapshot object
  \<open>a\<close> (section 4.5): the key is recorded for \<open>a\<close>, and a nested structure is
  wrapped for continued tracking.
\<close>

definition read_prop ::
  "(key \<times> sval) list list \<Rightarrow> saddr \<Rightarrow> key \<Rightarrow> affected_map \<times> proxy_cache
     \<Rightarrow> view \<times> affected_map \<times> proxy_cache" where
  "read_prop H a k ac =
     (case ac of (aff, c) \<Rightarrow>
        (case (if a < length H then map_of (H ! a) k else None) of
           None \<Rightarrow> (Bare (SPrim Undefined), record_key aff a k, c)
         | Some sv \<Rightarrow> (case createProxy sv c of (w, c') \<Rightarrow> (w, record_key aff a k, c'))))"

text \<open>
  Modelled from the spec: the reads a consumer makes through its views during one render
  pass, in order (section 4.5), each given by the snapshot object read and the key.
\<close>

definition reads :: "(key \<times> sval) list list \<Rightarrow> (saddr \<times> key) list
     \<Rightarrow> affected_map \<times> proxy_cache \<Rightarrow> affected_map \<times> proxy_cache" where
  "reads H rs ac = fold (\<lambda>(a, k) ac'. snd (read_prop H a k ac')) rs ac"

text \<open>
  Modelled from the spec: \<^verbatim>\<open>isChanged\<close> of \<^verbatim>\<open>proxy-compare\<close> (section 4.6).
  Identical references are unchanged. Values that are not both plain structures are
  changed. For two structures the keys recorded for the previous object decide: a key
  present on one side only is a change, and the values under a key are compared in the
  same way. An object with no recorded entry cannot be compared and counts as changed
  (the conservative fallback of section 7); an object that is already under comparison
  adds no difference of its own.
\<close>

function isChanged_from ::
  "(key \<times> sval) list list \<Rightarrow> affected_map \<Rightarrow> saddr list \<Rightarrow> sval \<Rightarrow> sval \<Rightarrow> bool" where
  "isChanged_from H aff seen x y =
     (if x = y then False
      else (case (x, y) of
              (SObj a, SObj b) \<Rightarrow>
                if a < length H \<and> b < length H then
                  (if a \<in> set seen then False
                   else (case aff a of
                           None \<Rightarrow> True
                         | Some used \<Rightarrow>
                             list_ex (\<lambda>k. case (map_of (H ! a) k, map_of (H ! b) k) of
                                             (None, None) \<Rightarrow> False
                                           | (Some u, Some w) \<Rightarrow> isChanged_from H aff (a # seen) u w
                                           | _ \<Rightarrow> True) used))
                else True
            | _ \<Rightarrow> True))"
  by pat_completeness auto

lemma card_unseen_less:
  "a < n \<Longrightarrow> a \<notin> set seen \<Longrightarrow> card ({..<n} - set (a # seen)) < card ({..<n::nat} - set seen)"
proof -
  assume "a < n" "a \<notin> set seen"
  then have "{..<n} - set (a # seen) \<subset> {..<n} - set seen"
    by auto
  then show ?thesis
    by (intro psubset_card_mono) simp_all
qed

termination isChanged_from
  apply (relation "measure (\<lambda>(H, aff, seen, x, y). card ({..<length H} - set seen))")
   apply simp
  apply (simp only: in_measure prod.case)
  apply (rule card_unseen_less)
   apply simp_all
  done

declare isChanged_from.simps [simp del]

text \<open>
  Modelled from the spec: \<^verbatim>\<open>isChanged(prevSnapshot, nextSnapshot, affectedMap)\<close> of
  section 4.6, the comparison started with nothing under comparison yet.
\<close>

definition isChanged :: "(key \<times> sval) list list \<Rightarrow> sval \<Rightarrow> sval \<Rightarrow> affected_map \<Rightarrow> bool" where
  "isChanged H prev nxt aff = isChanged_from H aff [] prev nxt"

section \<open>The hook \<open>useSnapshot\<close> of react.ts\<close>

text \<open>
  What a comparison may throw ("a promise or something", react.ts line 159). The
  comparator is a parameter of the hook's model: \<^verbatim>\<open>isChanged\<close> is imported from
  \<^verbatim>\<open>proxy-compare\<close>, and the hook's \<^verbatim>\<open>try\<close> block is written for one that can
  throw. Its fourth argument in the source, a new \<^verbatim>\<open>WeakMap\<close>, is the comparator's
  own working cache and starts empty at every call.
\<close>

datatype thrown = Thrown

type_synonym comparator =
  "(key \<times> sval) list list \<Rightarrow> sval \<Rightarrow> sval \<Rightarrow> affected_map \<Rightarrow> thrown + bool"

text \<open>
  The cells of one hook instance that outlive a render: the variable \<^verbatim>\<open>prevSnapshot\<close>
  of the memoised \<^verbatim>\<open>getSnapshot\<close> closure (line 141) together with the dependency
  \<^verbatim>\<open>[proxyObject]\<close> the closure was made for (line 163), the refs
  \<^verbatim>\<open>lastAffected\<close> and \<^verbatim>\<open>lastCallback\<close> (lines 125 and 126) and the memoised
  \<^verbatim>\<open>proxyCache\<close> (line 185). A cell that holds \<^verbatim>\<open>undefined\<close> is \<open>None\<close>;
  \<^verbatim>\<open>prevSnapshot\<close> holds a JavaScript value and starts as \<^verbatim>\<open>undefined\<close>.
\<close>

record hook =
  prevSnapshot :: sval
  memoProxy :: "addr option"
  lastAffected :: "affected_map option"
  lastCallback :: "callback option"
  proxyCache :: "proxy_cache option"

definition mounted :: hook where
  "mounted = \<lparr>prevSnapshot = SPrim Undefined, memoProxy = None, lastAffected = None,
               lastCallback = None, proxyCache = None\<rparr>"

text \<open>JavaScript truthiness, as the operator \<^verbatim>\<open>&&\<close> of line 146 tests it.\<close>

fun truthy :: "sval \<Rightarrow> bool" where
  "truthy (SObj a) = True"
| "truthy (SOpaque r) = True"
| "truthy (SPrim Undefined) = False"
| "truthy (SPrim Null) = False"
| "truthy (SPrim (Boolean b)) = b"
| "truthy (SPrim (Num i)) = (i \<noteq> 0)"
| "truthy (SPrim (Str t)) = (t \<noteq> [])"

text \<open>
  The condition of the \<^verbatim>\<open>if\<close> in the \<^verbatim>\<open>try\<close> block (lines 145 to 154):
  \<^verbatim>\<open>prevSnapshot && lastAffected.current && !isChanged(...)\<close>, evaluated left to
  right; only the call of the comparator can throw.
\<close>

definition not_changed :: "comparator \<Rightarrow> hook \<Rightarrow> (key \<times> sval) list list \<Rightarrow> sval \<Rightarrow> thrown + bool" where
  "not_changed cmp h H nextSnapshot =
     (if truthy (prevSnapshot h) then
        (case lastAffected h of
           None \<Rightarrow> Inr False
         | Some aff \<Rightarrow>
             (case cmp H (prevSnapshot h) nextSnapshot aff of
                Inl e \<Rightarrow> Inl e
              | Inr changed \<Rightarrow> Inr (\<not> changed)))
      else Inr False)"

text \<open>
  The \<^verbatim>\<open>getSnapshot\<close> closure of lines 142 to 162: the fresh snapshot is taken; when
  the condition holds the previous snapshot is returned from inside the \<^verbatim>\<open>try\<close>;
  a thrown value is caught and ignored; in every other case the fresh snapshot is stored
  in \<^verbatim>\<open>prevSnapshot\<close> and returned.
\<close>

definition getSnapshot :: "comparator \<Rightarrow> addr \<Rightarrow> hook \<Rightarrow> store \<Rightarrow> sval \<times> hook \<times> store" where
  "getSnapshot cmp proxyObject h s =
     (case snapshot s proxyObject of (nextSnapshot, s') \<Rightarrow>
        (case not_changed cmp h (snaps s') nextSnapshot of
           Inr True \<Rightarrow> (prevSnapshot h, h, s')
         | Inr False \<Rightarrow> (nextSnapshot, h\<lparr>prevSnapshot := nextSnapshot\<rparr>, s')
         | Inl e \<Rightarrow> (nextSnapshot, h\<lparr>prevSnapshot := nextSnapshot\<rparr>, s')))"

text \<open>
  The server snapshot function of line 164: the snapshot, with no comparison.
\<close>

definition getServerSnapshot :: "addr \<Rightarrow> store \<Rightarrow> sval \<times> store" where
  "getServerSnapshot proxyObject s = snapshot s proxyObject"

text \<open>
  The subscribe function handed to \<^verbatim>\<open>useSyncExternalStore\<close> (lines 130 to 137) and
  the unsubscribe closure it returns.
\<close>

definition subscribe_hook ::
  "addr \<Rightarrow> bool \<Rightarrow> callback \<Rightarrow> hook \<Rightarrow> store \<Rightarrow> subid \<times> hook \<times> store" where
  "subscribe_hook proxyObject notifyInSync cb h s =
     (case subscribe s proxyObject cb notifyInSync of
        (unsub, s') \<Rightarrow> (unsub, h\<lparr>lastCallback := Some cb\<rparr>, s'))"

definition unsubscribe_hook :: "addr \<Rightarrow> subid \<Rightarrow> hook \<Rightarrow> store \<Rightarrow> hook \<times> store" where
  "unsubscribe_hook proxyObject unsub h s =
     (h\<lparr>lastCallback := None\<rparr>, unsubscribe s proxyObject unsub)"

text \<open>
  What one call of \<^verbatim>\<open>useSnapshot\<close> computes during render: the new \<^verbatim>\<open>affected\<close>
  map (line 124), the current snapshot (line 128), the version seen (line 166) and the
  instrumented view returned (line 186).
\<close>

record pass =
  affected :: affected_map
  currSnapshot :: sval
  currVersion :: "nat option"
  returned :: view

text \<open>
  The render part of \<^verbatim>\<open>useSnapshot\<close> (lines 120 to 187). \<^verbatim>\<open>useMemo\<close> keeps the
  \<^verbatim>\<open>getSnapshot\<close> closure while \<^verbatim>\<open>proxyObject\<close> is the same and makes a new one,
  with \<^verbatim>\<open>prevSnapshot\<close> undefined, when it differs; \<^verbatim>\<open>useSyncExternalStore\<close>
  reads the store through \<^verbatim>\<open>getSnapshot\<close>; the \<^verbatim>\<open>proxyCache\<close> is made on the
  first render only (its dependency list is empty). The debug value of lines 33 to 42 and
  181 to 184 only reports the recorded paths to the developer tools and is left out.
\<close>

definition useSnapshot :: "comparator \<Rightarrow> addr \<Rightarrow> hook \<Rightarrow> store \<Rightarrow> pass \<times> hook \<times> store" where
  "useSnapshot cmp proxyObject h s =
     (let h1 = (if memoProxy h = Some proxyObject then h
                else h\<lparr>prevSnapshot := SPrim Undefined, memoProxy := Some proxyObject\<rparr>)
      in case getSnapshot cmp proxyObject h1 s of
           (snap, h2, s') \<Rightarrow>
             (case createProxy snap (case proxyCache h2 of None \<Rightarrow> new_cache | Some c \<Rightarrow> c) of
                (w, c') \<Rightarrow>
                  (\<lparr>affected = Map.empty, currSnapshot = snap,
                    currVersion = getVersion s' proxyObject, returned = w\<rparr>,
                   h2\<lparr>proxyCache := Some c'\<rparr>, s')))"

text \<open>
  What the effect of lines 167 to 180 does besides updating the ref: it calls the stored
  callback, or warns on the console.
\<close>

datatype effect = Call callback | Warn string

text \<open>
  The effect of lines 167 to 180, run at commit. \<open>aff\<close> is the \<^verbatim>\<open>affected\<close> map
  of the pass with the reads made during render; \<open>ver\<close> is \<^verbatim>\<open>currVersion\<close>;
  \<open>dev\<close> is the test \<^verbatim>\<open>typeof process === 'object' && process.env.NODE_ENV !==
  'production'\<close>.
\<close>

definition commit ::
  "bool \<Rightarrow> addr \<Rightarrow> nat option \<Rightarrow> affected_map \<Rightarrow> hook \<Rightarrow> store \<Rightarrow> hook \<times> effect list" where
  "commit dev proxyObject ver aff h s =
     (h\<lparr>lastAffected := Some aff\<rparr>,
      if ver \<noteq> getVersion s proxyObject then
        (case lastCallback h of
           Some cb \<Rightarrow> [Call cb]
         | None \<Rightarrow> if dev then [Warn ''[Bug] last callback is undefined''] else [])
      else [])"

section \<open>A running example\<close>

text \<open>
  The state of section 8 of the specification: \<^verbatim>\<open>{count: 0, profile: {name: "a"}}\<close>.
  The root is node 0 and \<^verbatim>\<open>profile\<close> is node 1.
\<close>

definition example_root :: plain where
  "example_root =
     PObj [(''count'', PPrim (Num 0)), (''profile'', PObj [(''name'', PPrim (Str ''a''))])]"

definition example_store :: store where
  "example_store = snd (wrap empty_store None example_root)"

text \<open>The example after its first snapshot: snapshot object 0 for the root, 1 for the profile.\<close>

definition example_rendered :: store where
  "example_rendered = snd (snapshot example_store 0)"

text \<open>
  A consumer of the root after its first render and commit: it holds snapshot object 0,
  has read \<^verbatim>\<open>count\<close> only, and is subscribed with callback 7.
\<close>

definition example_hook :: hook where
  "example_hook =
     \<lparr>prevSnapshot = SObj 0, memoProxy = Some 0,
      lastAffected = Some (record_key Map.empty 0 ''count''),
      lastCallback = Some 7,
      proxyCache = Some \<lparr>views = [0 \<mapsto> 0], nextView = 1\<rparr>\<rparr>"


text \<open>
  The example with two subscriptions on the root: registration 0, batched, of callback 7,
  and registration 1, immediate, of callback 8; and three mutations of one turn, two of
  them in the nested profile.
\<close>

definition example_subscribed :: store where
  "example_subscribed = snd (subscribe (snd (subscribe example_store 0 7 False)) 0 8 True)"

definition three_writes :: "(addr \<times> key \<times> val) list" where
  "three_writes = [(1, ''name'', Prim (Str ''b'')), (1, ''name'', Prim (Str ''c'')),
                   (0, ''count'', Prim (Num 1))]"

text \<open>Comparators for the examples: one that throws, and one that answers "changed".\<close>

definition throwing :: comparator where
  "throwing H prev nxt aff = Inl Thrown"

definition always_changed :: comparator where
  "always_changed H prev nxt aff = Inr True"

text \<open>
  The comparator of the specification, which never throws, as the hook's comparator.
\<close>

definition comparing :: comparator where
  "comparing H prev nxt aff = Inr (isChanged H prev nxt aff)"

text \<open>The example after \<^verbatim>\<open>state.count = 1\<close>, written after the first snapshot.\<close>

definition example_mutated :: store where
  "example_mutated = write_prop example_rendered 0 ''count'' (Prim (Num 1))"

section \<open>Properties of the hook\<close>

text \<open>
  C10. On the first snapshot read of a hook instance, when no previous snapshot exists or
  no affected map has been committed, \<^verbatim>\<open>getSnapshot\<close> does not take the unchanged
  short-circuit: whatever the comparator would do, it returns the freshly built snapshot
  and stores it as the previous one.
\<close>

theorem first_read_returns_fresh_snapshot:
  assumes "prevSnapshot h = SPrim Undefined \<or> lastAffected h = None"
  shows "getSnapshot cmp proxyObject h s =
           (fst (snapshot s proxyObject),
            h\<lparr>prevSnapshot := fst (snapshot s proxyObject)\<rparr>,
            snd (snapshot s proxyObject))"
  using assms
  by (auto simp: getSnapshot_def not_changed_def split: prod.splits sum.splits option.splits)

theorem first_read_returns_fresh_snapshot_witness:
  "prevSnapshot mounted = SPrim Undefined \<and>
   fst (getSnapshot throwing 0 mounted example_store) = SObj 0 \<and>
   prevSnapshot (fst (snd (getSnapshot throwing 0 mounted example_store))) = SObj 0"
proof -
  have h: "prevSnapshot mounted = SPrim Undefined \<or> lastAffected mounted = None"
    by (simp add: mounted_def)
  have "fst (snapshot example_store 0) = SObj 0"
    by code_simp
  with first_read_returns_fresh_snapshot[OF h, of throwing 0 example_store]
  show ?thesis by (simp add: mounted_def)
qed

text \<open>
  C2. If the comparison throws, \<^verbatim>\<open>getSnapshot\<close> catches the thrown value and resolves to
  "changed": it returns the fresh snapshot and adopts it as the previous one, which is
  what it does when the comparator answers "changed"; nothing is propagated.
\<close>

theorem thrown_comparison_adopts_fresh_snapshot:
  assumes "truthy (prevSnapshot h)" and "lastAffected h = Some aff"
    and "snapshot s proxyObject = (nextSnapshot, s')"
    and "cmp (snaps s') (prevSnapshot h) nextSnapshot aff = Inl e"
  shows "getSnapshot cmp proxyObject h s = (nextSnapshot, h\<lparr>prevSnapshot := nextSnapshot\<rparr>, s')
       \<and> getSnapshot cmp proxyObject h s = getSnapshot always_changed proxyObject h s"
  using assms by (simp add: getSnapshot_def not_changed_def always_changed_def)

theorem thrown_comparison_adopts_fresh_snapshot_witness:
  "truthy (prevSnapshot example_hook) \<and>
   throwing (snaps example_rendered) (prevSnapshot example_hook) (SObj 0)
     (record_key Map.empty 0 ''count'') = Inl Thrown \<and>
   fst (getSnapshot throwing 0 example_hook (write_prop example_rendered 0 ''count'' (Prim (Num 1))))
     = SObj 2"
proof -
  let ?s = "write_prop example_rendered 0 ''count'' (Prim (Num 1))"
  have a: "truthy (prevSnapshot example_hook)"
    by (simp add: example_hook_def)
  have b: "lastAffected example_hook = Some (record_key Map.empty 0 ''count'')"
    by (simp add: example_hook_def)
  have c: "snapshot ?s 0 = (fst (snapshot ?s 0), snd (snapshot ?s 0))"
    by simp
  have d: "throwing (snaps (snd (snapshot ?s 0))) (prevSnapshot example_hook) (fst (snapshot ?s 0))
             (record_key Map.empty 0 ''count'') = Inl Thrown"
    by (simp add: throwing_def)
  have e: "fst (snapshot ?s 0) = SObj 2"
    by code_simp
  from thrown_comparison_adopts_fresh_snapshot[where cmp = throwing and e = Thrown, OF a b c d] e a
  show ?thesis by (simp add: throwing_def)
qed

text \<open>
  C3 as stated does not hold: when the version seen during render differs from the version
  at commit, a subscribed consumer's callback is called but nothing is logged, and a
  consumer with no stored callback in a production build neither notifies nor logs.
\<close>

theorem stale_commit_counterexample:
  "getVersion example_rendered 0 \<noteq> getVersion example_mutated 0 \<and>
   snd (commit True 0 (getVersion example_rendered 0) Map.empty example_hook example_mutated)
     = [Call 7] \<and>
   snd (commit False 0 (getVersion example_rendered 0) Map.empty
          (example_hook\<lparr>lastCallback := None\<rparr>) example_mutated) = []"
proof -
  have "getVersion example_rendered 0 = Some 0" by code_simp
  moreover have "getVersion example_mutated 0 = Some 1" by code_simp
  ultimately show ?thesis by (simp add: commit_def example_hook_def)
qed

text \<open>
  C3, amended. When the version seen during render differs from the version at commit, the
  effect calls the stored subscription callback if there is one, and logs nothing; if none
  is stored it calls nothing, and logs a warning unless the build is a production build.
  The effect always completes and installs the affected map of the pass.
\<close>

theorem stale_commit_calls_stored_callback:
  assumes "ver \<noteq> getVersion s proxyObject"
  shows "(lastCallback h = Some cb \<longrightarrow> snd (commit dev proxyObject ver aff h s) = [Call cb]) \<and>
         (lastCallback h = None \<longrightarrow> snd (commit dev proxyObject ver aff h s) =
             (if dev then [Warn ''[Bug] last callback is undefined''] else [])) \<and>
         lastAffected (fst (commit dev proxyObject ver aff h s)) = Some aff"
  using assms by (simp add: commit_def)

theorem stale_commit_calls_stored_callback_witness:
  "getVersion example_rendered 0 \<noteq> getVersion example_mutated 0 \<and>
   lastCallback example_hook = Some 7 \<and>
   snd (commit True 0 (getVersion example_rendered 0) Map.empty example_hook example_mutated)
     = [Call 7]"
proof -
  have a: "getVersion example_rendered 0 \<noteq> getVersion example_mutated 0"
    by code_simp
  have b: "lastCallback example_hook = Some 7"
    by (simp add: example_hook_def)
  from stale_commit_calls_stored_callback[OF a, of example_hook 7 True Map.empty] a b
  show ?thesis by simp
qed

subsection \<open>The affected map of a pass\<close>

lemma keys_read_record_key: "keys_read aff a \<subseteq> keys_read (record_key aff b k) a"
  by (auto simp: keys_read_def record_key_def split: option.splits)

lemma keys_read_read_prop:
  "keys_read aff a \<subseteq> keys_read (fst (snd (read_prop H b k (aff, c)))) a"
  using keys_read_record_key[of aff a b k]
  by (auto simp: read_prop_def split: option.splits prod.splits)

lemma reads_grows: "keys_read (fst ac) a \<subseteq> keys_read (fst (reads H rs ac)) a"
proof (induction rs arbitrary: ac)
  case Nil
  then show ?case by (simp add: reads_def)
next
  case (Cons r rs)
  obtain b k where r: "r = (b, k)" by (cases r)
  obtain aff c where ac: "ac = (aff, c)" by (cases ac)
  have "keys_read (fst ac) a \<subseteq> keys_read (fst (snd (read_prop H b k ac))) a"
    using keys_read_read_prop[of aff a H b k c] ac by simp
  also have "\<dots> \<subseteq> keys_read (fst (reads H rs (snd (read_prop H b k ac)))) a"
    by (rule Cons.IH)
  finally show ?case by (simp add: reads_def r)
qed

lemma reads_append: "reads H (rs @ rs') ac = reads H rs' (reads H rs ac)"
  by (simp add: reads_def)

lemma useSnapshot_affected:
  "useSnapshot cmp proxyObject h s = (ps, h', s') \<Longrightarrow>
     affected ps = Map.empty \<and> lastAffected h' = lastAffected h"
  by (auto simp: useSnapshot_def getSnapshot_def Let_def
           split: prod.splits sum.splits bool.splits if_splits)

text \<open>
  C7. Every render starts with an empty affected map and leaves \<^verbatim>\<open>lastAffected\<close> as
  it was; within the pass each read only adds to the map (the keys recorded after some
  reads are still recorded after more reads); and the commit installs the map of this pass,
  built from the empty map by this pass's reads alone, whatever \<^verbatim>\<open>lastAffected\<close> held
  before: replaced, not merged.
\<close>

theorem affected_map_grows_then_is_replaced:
  assumes "useSnapshot cmp proxyObject h s = (ps, h', s')"
  shows "affected ps = Map.empty \<and> lastAffected h' = lastAffected h \<and>
         keys_read (fst (reads H rs (affected ps, c))) a
           \<subseteq> keys_read (fst (reads H (rs @ rs') (affected ps, c))) a \<and>
         lastAffected (fst (commit dev proxyObject (currVersion ps)
                              (fst (reads H rs (affected ps, c))) h' s''))
           = Some (fst (reads H rs (Map.empty, c)))"
proof -
  have e: "affected ps = Map.empty" and l: "lastAffected h' = lastAffected h"
    using useSnapshot_affected[OF assms] by simp_all
  have "keys_read (fst (reads H rs (affected ps, c))) a
           \<subseteq> keys_read (fst (reads H (rs @ rs') (affected ps, c))) a"
    unfolding reads_append by (rule reads_grows)
  moreover have "lastAffected (fst (commit dev proxyObject (currVersion ps)
                              (fst (reads H rs (affected ps, c))) h' s''))
           = Some (fst (reads H rs (Map.empty, c)))"
    by (simp add: commit_def e)
  ultimately show ?thesis using e l by simp
qed

theorem affected_map_grows_then_is_replaced_witness:
  "keys_read (the (lastAffected example_hook)) 0 = {''count''} \<and>
   keys_read (the (lastAffected (fst (commit True 0
       (currVersion (fst (useSnapshot comparing 0 example_hook example_mutated)))
       (fst (reads (snaps (snd (snd (useSnapshot comparing 0 example_hook example_mutated))))
          [(2, ''profile'')]
          (affected (fst (useSnapshot comparing 0 example_hook example_mutated)), new_cache)))
       (fst (snd (useSnapshot comparing 0 example_hook example_mutated)))
       example_mutated)))) 0 = {} \<and>
   keys_read (the (lastAffected (fst (commit True 0
       (currVersion (fst (useSnapshot comparing 0 example_hook example_mutated)))
       (fst (reads (snaps (snd (snd (useSnapshot comparing 0 example_hook example_mutated))))
          [(2, ''profile'')]
          (affected (fst (useSnapshot comparing 0 example_hook example_mutated)), new_cache)))
       (fst (snd (useSnapshot comparing 0 example_hook example_mutated)))
       example_mutated)))) 2 = {''profile''}"
proof -
  let ?r = "useSnapshot comparing 0 example_hook example_mutated"
  let ?H = "snaps (snd (snd ?r))"
  have u: "?r = (fst ?r, fst (snd ?r), snd (snd ?r))"
    by simp
  have k0: "keys_read (the (lastAffected example_hook)) 0 = {''count''}"
    by (simp add: example_hook_def keys_read_def record_key_def)
  have k1: "keys_read (fst (reads ?H [(2, ''profile'')] (Map.empty, new_cache))) 0 = {}"
    by (simp add: reads_def read_prop_def keys_read_def record_key_def
             split: option.splits prod.splits)
  have k2: "keys_read (fst (reads ?H [(2, ''profile'')] (Map.empty, new_cache))) 2 = {''profile''}"
    by (simp add: reads_def read_prop_def keys_read_def record_key_def
             split: option.splits prod.splits)
  have "lastAffected (fst (commit True 0 (currVersion (fst ?r))
           (fst (reads ?H [(2, ''profile'')] (affected (fst ?r), new_cache)))
           (fst (snd ?r)) example_mutated))
        = Some (fst (reads ?H [(2, ''profile'')] (Map.empty, new_cache)))"
    using affected_map_grows_then_is_replaced[OF u, of ?H "[(2, ''profile'')]"
      new_cache _ "[]" True example_mutated]
    by blast
  then show ?thesis
    using k0 k1 k2 by (simp only: option.sel simp_thms)
qed

subsection \<open>The consumer-scoped view cache\<close>






section \<open>Properties of the engine\<close>

subsection \<open>Versions\<close>

lemma length_bump [simp]: "length (nodes (bump m s)) = length (nodes s)"
  by (simp add: bump_def)


lemma length_fold_bump [simp]: "length (nodes (fold bump ms s)) = length (nodes s)"
  by (induction ms arbitrary: s) simp_all


lemma nodes_deliver [simp]: "nodes (deliver l s) = nodes s"
  by (simp add: deliver_def split: prod.splits)

lemma nodes_fold_deliver [simp]: "nodes (fold deliver ls s) = nodes s"
  by (induction ls arbitrary: s) simp_all

lemma nodes_notify [simp]: "nodes (notify m s) = nodes s"
  by (simp add: notify_def)

lemma nodes_fold_notify [simp]: "nodes (fold notify ms s) = nodes s"
  by (induction ms arbitrary: s) simp_all

lemma nth_update_same_field:
  assumes "\<And>x. f (g x) = f x"
  shows "f ((xs[i := g (xs ! i)]) ! a) = f (xs ! a)"
proof (cases "a = i")
  case False
  then show ?thesis by simp
next
  case True
  show ?thesis
  proof (cases "i < length xs")
    case True
    with \<open>a = i\<close> show ?thesis by (simp add: assms)
  next
    case False
    then have "xs[i := g (xs ! i)] = xs" by (simp add: list_update_beyond)
    then show ?thesis by simp
  qed
qed

lemma version_update_props [simp]:
  "version ((xs[i := (xs ! i)\<lparr>props := ps\<rparr>]) ! a) = version (xs ! a)"
  by (rule nth_update_same_field) simp

lemma version_update_parent [simp]:
  "version ((xs[i := (xs ! i)\<lparr>parent := p\<rparr>]) ! a) = version (xs ! a)"
  by (rule nth_update_same_field) simp

lemma length_set_parent [simp]: "length (nodes (set_parent c p s)) = length (nodes s)"
  by (simp add: set_parent_def)

lemma version_set_parent [simp]: "version (nodes (set_parent c p s) ! a) = version (nodes s ! a)"
  by (simp add: set_parent_def)

lemma length_store_prop [simp]: "length (nodes (store_prop s n k v)) = length (nodes s)"
  by (simp add: store_prop_def Let_def split: option.splits val.splits)

lemma version_store_prop [simp]:
  "version (nodes (store_prop s n k v) ! a) = version (nodes s ! a)"
  by (simp add: store_prop_def Let_def split: option.splits val.splits)






text \<open>
  C5. Writing the value a property already holds is a no-op: the whole state is as it
  was, so nothing stored changes, no version is bumped, nothing is delivered and nothing
  is queued for the deferred step.
\<close>

theorem identical_write_is_noop:
  assumes "n < length (nodes s)" and "map_of (props (nodes s ! n)) k = Some v"
  shows "write_prop s n k v = s \<and>
         getVersion (write_prop s n k v) m = getVersion s m \<and>
         delivered (write_prop s n k v) = delivered s \<and>
         pending (write_prop s n k v) = pending s"
  using assms by (simp add: write_prop_def)

theorem identical_write_is_noop_witness:
  "map_of (props (nodes example_subscribed ! 0)) ''count'' = Some (Prim (Num 0)) \<and>
   write_prop example_subscribed 0 ''count'' (Prim (Num 0)) = example_subscribed \<and>
   delivered (turn example_subscribed [(0, ''count'', Prim (Num 0))]) = []"
proof -
  have n: "0 < length (nodes example_subscribed)" by code_simp
  have e: "map_of (props (nodes example_subscribed ! 0)) ''count'' = Some (Prim (Num 0))" by code_simp
  have "delivered (flush example_subscribed) = []" by code_simp
  with identical_write_is_noop[OF n e] e show ?thesis by (simp add: turn_def writes_def)
qed

subsection \<open>Batched delivery\<close>

lemma turn_writes: "turn s ws = flush (writes ws s)"
  by (simp add: turn_def)

lemma deliver_other:
  assumes "fst l \<noteq> i"
  shows "deliveries (deliver l s) i = deliveries s i" and "queued (deliver l s) i = queued s i"
proof -
  obtain j c imm where l: "l = (j, c, imm)" by (cases l)
  with assms have "j \<noteq> i" by simp
  then show "deliveries (deliver l s) i = deliveries s i"
    by (simp add: l deliver_def deliveries_def)
  from \<open>j \<noteq> i\<close> show "queued (deliver l s) i = queued s i"
    by (simp add: l deliver_def queued_def)
qed

lemma deliver_batched:
  assumes "queued s i = [] \<or> queued s i = [(i, cb)]"
  shows "deliveries (deliver (i, cb, False) s) i = deliveries s i"
    and "queued (deliver (i, cb, False) s) i = [(i, cb)]"
proof -
  show "deliveries (deliver (i, cb, False) s) i = deliveries s i"
    by (simp add: deliver_def deliveries_def)
  show "queued (deliver (i, cb, False) s) i = [(i, cb)]"
  proof (cases "(i, cb) \<in> set (pending s)")
    case True
    then have "(i, cb) \<in> set (queued s i)" by (simp add: queued_def)
    with assms have "queued s i = [(i, cb)]" by auto
    with True show ?thesis by (simp add: deliver_def queued_def)
  next
    case False
    then have "(i, cb) \<notin> set (queued s i)" by (simp add: queued_def)
    with assms have "queued s i = []" by auto
    with False show ?thesis by (simp add: deliver_def queued_def)
  qed
qed

lemma deliver_step:
  assumes "fst l = i \<longrightarrow> l = (i, cb, False)" and "coalesced s i cb"
  shows "deliveries (deliver l s) i = deliveries s i"
    and "coalesced (deliver l s) i cb"
    and "queued s i = [(i, cb)] \<or> l = (i, cb, False) \<Longrightarrow> queued (deliver l s) i = [(i, cb)]"
proof -
  show "deliveries (deliver l s) i = deliveries s i"
  proof (cases "fst l = i")
    case True
    with assms(1) have "l = (i, cb, False)" by simp
    then show ?thesis using deliver_batched(1)[of s i cb] assms(2) by (simp add: coalesced_def)
  next
    case False
    then show ?thesis by (rule deliver_other)
  qed
  show "coalesced (deliver l s) i cb"
  proof (cases "fst l = i")
    case True
    with assms(1) have "l = (i, cb, False)" by simp
    then show ?thesis using deliver_batched(2)[of s i cb] assms(2) by (simp add: coalesced_def)
  next
    case False
    then show ?thesis using deliver_other(2)[of l i s] assms(2) by (simp add: coalesced_def)
  qed
  show "queued (deliver l s) i = [(i, cb)]" if h: "queued s i = [(i, cb)] \<or> l = (i, cb, False)"
  proof (cases "fst l = i")
    case True
    with assms(1) have "l = (i, cb, False)" by simp
    then show ?thesis using deliver_batched(2)[of s i cb] assms(2) by (simp add: coalesced_def)
  next
    case False
    then have "l \<noteq> (i, cb, False)" by auto
    with h have "queued s i = [(i, cb)]" by simp
    then show ?thesis using deliver_other(2)[OF False, of s] by simp
  qed
qed

lemma fold_deliver_step:
  assumes "\<forall>l\<in>set ls. fst l = i \<longrightarrow> l = (i, cb, False)" and "coalesced s i cb"
  shows "deliveries (fold deliver ls s) i = deliveries s i \<and> coalesced (fold deliver ls s) i cb \<and>
         (queued s i = [(i, cb)] \<or> (i, cb, False) \<in> set ls
            \<longrightarrow> queued (fold deliver ls s) i = [(i, cb)])"
  using assms
proof (induction ls arbitrary: s)
  case Nil
  then show ?case by simp
next
  case (Cons l ls)
  have l: "fst l = i \<longrightarrow> l = (i, cb, False)" using Cons.prems(1) by simp
  have r: "\<forall>l\<in>set ls. fst l = i \<longrightarrow> l = (i, cb, False)" using Cons.prems(1) by simp
  note d = deliver_step[OF l Cons.prems(2)]
  note ih = Cons.IH[OF r d(2)]
  have "deliveries (fold deliver (l # ls) s) i = deliveries s i"
    using ih d(1) by simp
  moreover have "coalesced (fold deliver (l # ls) s) i cb"
    using ih by simp
  moreover have "queued (fold deliver (l # ls) s) i = [(i, cb)]"
    if h: "queued s i = [(i, cb)] \<or> (i, cb, False) \<in> set (l # ls)"
  proof (cases "queued s i = [(i, cb)] \<or> l = (i, cb, False)")
    case True
    then have "queued (deliver l s) i = [(i, cb)]" by (rule d(3))
    with ih show ?thesis by simp
  next
    case False
    with h have "(i, cb, False) \<in> set ls" by auto
    with ih show ?thesis by simp
  qed
  ultimately show ?case by blast
qed

lemma map_update_same_field:
  assumes "\<And>x. f (g x) = f x"
  shows "map f (xs[i := g (xs ! i)]) = map f xs"
proof (cases "i < length xs")
  case True
  have "map f (xs[i := g (xs ! i)]) = (map f xs)[i := f (xs ! i)]"
    by (simp add: map_update assms)
  also have "\<dots> = (map f xs)[i := map f xs ! i]" using True by simp
  also have "\<dots> = map f xs" by (rule list_update_id)
  finally show ?thesis .
next
  case False
  then show ?thesis by (simp add: list_update_beyond)
qed

lemma listeners_bump [simp]: "map listeners (nodes (bump m s)) = map listeners (nodes s)"
  unfolding bump_def by (simp add: map_update_same_field)

lemma listeners_fold_bump [simp]: "map listeners (nodes (fold bump ms s)) = map listeners (nodes s)"
  by (induction ms arbitrary: s) simp_all

lemma listeners_set_parent [simp]:
  "map listeners (nodes (set_parent c p s)) = map listeners (nodes s)"
  unfolding set_parent_def by (simp add: map_update_same_field)

lemma listeners_store_prop [simp]:
  "map listeners (nodes (store_prop s n k v)) = map listeners (nodes s)"
  by (simp add: store_prop_def Let_def map_update_same_field split: option.splits val.splits)

lemma queues_bump [simp]: "pending (bump m s) = pending s" "delivered (bump m s) = delivered s"
  by (simp_all add: bump_def)

lemma queues_fold_bump [simp]:
  "pending (fold bump ms s) = pending s" "delivered (fold bump ms s) = delivered s"
  by (induction ms arbitrary: s) simp_all

lemma queues_set_parent [simp]:
  "pending (set_parent c p s) = pending s" "delivered (set_parent c p s) = delivered s"
  by (simp_all add: set_parent_def)

lemma queues_store_prop [simp]:
  "pending (store_prop s n k v) = pending s" "delivered (store_prop s n k v) = delivered s"
  by (simp_all add: store_prop_def Let_def split: option.splits val.splits)

lemma chain_valid: "m \<in> set (chain s seen n) \<Longrightarrow> m < length (nodes s)"
proof (induction s seen n rule: chain.induct)
  case (1 s seen n)
  show ?case
  proof (cases "n < length (nodes s) \<and> n \<notin> set seen")
    case False
    then have "chain s seen n = []" by (subst chain.simps) simp
    with "1.prems" show ?thesis by simp
  next
    case True
    show ?thesis
    proof (cases "parent (nodes s ! n)")
      case None
      with True have "chain s seen n = [n]" by (subst chain.simps) simp
      with "1.prems" True show ?thesis by simp
    next
      case (Some q)
      with True have "chain s seen n = n # chain s (n # seen) q" by (subst chain.simps) simp
      with "1.prems" "1.IH"[OF True Some] True show ?thesis by auto
    qed
  qed
qed

lemma listeners_in_all:
  "m < length (nodes s) \<Longrightarrow> set (listeners (nodes s ! m)) \<subseteq> set (all_listeners s)"
  by (auto simp: all_listeners_def) (metis nth_mem)

lemma notify_step:
  assumes "registered_batched s i cb" and "m < length (nodes s)" and "coalesced s i cb"
  shows "deliveries (notify m s) i = deliveries s i \<and> coalesced (notify m s) i cb \<and>
         (queued s i = [(i, cb)] \<or> (i, cb, False) \<in> set (listeners (nodes s ! m))
            \<longrightarrow> queued (notify m s) i = [(i, cb)])"
proof -
  have "\<forall>l\<in>set (listeners (nodes s ! m)). fst l = i \<longrightarrow> l = (i, cb, False)"
    using assms(1) listeners_in_all[OF assms(2)] by (auto simp: registered_batched_def)
  from fold_deliver_step[OF this assms(3)] show ?thesis by (simp add: notify_def)
qed

lemma fold_notify_step:
  assumes "registered_batched s i cb" and "\<forall>m\<in>set ms. m < length (nodes s)" and "coalesced s i cb"
  shows "deliveries (fold notify ms s) i = deliveries s i \<and> coalesced (fold notify ms s) i cb \<and>
         (queued s i = [(i, cb)] \<or> (\<exists>m\<in>set ms. (i, cb, False) \<in> set (listeners (nodes s ! m)))
            \<longrightarrow> queued (fold notify ms s) i = [(i, cb)])"
  using assms
proof (induction ms arbitrary: s)
  case Nil
  then show ?case by simp
next
  case (Cons m ms)
  have m: "m < length (nodes s)" using Cons.prems(2) by simp
  note n = notify_step[OF Cons.prems(1) m Cons.prems(3)]
  have r: "registered_batched (notify m s) i cb"
    using Cons.prems(1) by (simp add: registered_batched_def all_listeners_def)
  have v: "\<forall>x\<in>set ms. x < length (nodes (notify m s))" using Cons.prems(2) by simp
  have c: "coalesced (notify m s) i cb" using n by simp
  note ih = Cons.IH[OF r v c]
  have "deliveries (fold notify (m # ms) s) i = deliveries s i" using ih n by simp
  moreover have "coalesced (fold notify (m # ms) s) i cb" using ih by simp
  moreover have "queued (fold notify (m # ms) s) i = [(i, cb)]"
    if h: "queued s i = [(i, cb)] \<or> (\<exists>x\<in>set (m # ms). (i, cb, False) \<in> set (listeners (nodes s ! x)))"
  proof (cases "queued s i = [(i, cb)] \<or> (i, cb, False) \<in> set (listeners (nodes s ! m))")
    case True
    with n have "queued (notify m s) i = [(i, cb)]" by blast
    with ih show ?thesis by simp
  next
    case False
    with h have "\<exists>x\<in>set ms. (i, cb, False) \<in> set (listeners (nodes s ! x))" by auto
    with ih show ?thesis by simp
  qed
  ultimately show ?case by blast
qed

lemma nth_listeners:
  assumes "map listeners xs = map listeners ys" and "m < length ys"
  shows "listeners (xs ! m) = listeners (ys ! m)"
proof -
  have "length xs = length ys" using assms(1) by (rule map_eq_imp_length_eq)
  with assms(2) have "map listeners xs ! m = listeners (xs ! m)"
    and "map listeners ys ! m = listeners (ys ! m)" by simp_all
  with assms(1) show ?thesis by simp
qed

lemma write_prop_listeners [simp]:
  "map listeners (nodes (write_prop s n k v)) = map listeners (nodes s)"
  by (simp add: write_prop_def Let_def)

lemma write_prop_registered:
  "registered_batched (write_prop s n k v) i cb = registered_batched s i cb"
  by (simp add: registered_batched_def all_listeners_def)

lemma write_prop_step:
  assumes "registered_batched s i cb" and "coalesced s i cb"
  shows "deliveries (write_prop s n k v) i = deliveries s i \<and> coalesced (write_prop s n k v) i cb \<and>
         (queued s i = [(i, cb)] \<or>
            n < length (nodes s) \<and> map_of (props (nodes s ! n)) k \<noteq> Some v \<and>
            (\<exists>m\<in>set (chain s [] n). (i, cb, False) \<in> set (listeners (nodes s ! m)))
          \<longrightarrow> queued (write_prop s n k v) i = [(i, cb)])"
proof (cases "n < length (nodes s) \<and> map_of (props (nodes s ! n)) k \<noteq> Some v")
  case False
  then have "write_prop s n k v = s" by (auto simp: write_prop_def)
  with assms(2) False show ?thesis by auto
next
  case True
  define s1 where "s1 = fold bump (chain s [] n) (store_prop s n k v)"
  have w: "write_prop s n k v = fold notify (chain s [] n) s1"
    using True by (simp add: write_prop_def Let_def s1_def)
  have ls: "map listeners (nodes s1) = map listeners (nodes s)" by (simp add: s1_def)
  have len: "length (nodes s1) = length (nodes s)" using ls by (rule map_eq_imp_length_eq)
  have q: "queued s1 i = queued s i" by (simp add: s1_def queued_def)
  have d: "deliveries s1 i = deliveries s i" by (simp add: s1_def deliveries_def)
  have r: "registered_batched s1 i cb"
    using assms(1) ls by (simp add: registered_batched_def all_listeners_def)
  have v: "\<forall>m\<in>set (chain s [] n). m < length (nodes s1)"
    using chain_valid len by auto
  have c: "coalesced s1 i cb" using assms(2) q by (simp add: coalesced_def)
  have e: "(\<exists>m\<in>set (chain s [] n). (i, cb, False) \<in> set (listeners (nodes s1 ! m)))
         = (\<exists>m\<in>set (chain s [] n). (i, cb, False) \<in> set (listeners (nodes s ! m)))"
    using nth_listeners[OF ls] chain_valid by (intro bex_cong) auto
  from fold_notify_step[OF r v c] show ?thesis
    unfolding w e q d by blast
qed

lemma writes_step:
  assumes "registered_batched s i cb" and "coalesced s i cb"
  shows "deliveries (writes ws s) i = deliveries s i \<and> coalesced (writes ws s) i cb \<and>
         registered_batched (writes ws s) i cb \<and>
         (queued s i = [(i, cb)] \<longrightarrow> queued (writes ws s) i = [(i, cb)])"
  using assms
proof (induction ws arbitrary: s)
  case Nil
  then show ?case by (simp add: writes_def)
next
  case (Cons w ws)
  obtain n k v where w: "w = (n, k, v)" by (cases w)
  note st = write_prop_step[OF Cons.prems, of n k v]
  have r: "registered_batched (write_prop s n k v) i cb"
    using Cons.prems(1) by (simp add: write_prop_registered)
  have c: "coalesced (write_prop s n k v) i cb" using st by simp
  note ih = Cons.IH[OF r c]
  have u: "writes (w # ws) s = writes ws (write_prop s n k v)" by (simp add: writes_def w)
  show ?case unfolding u using ih st by auto
qed

lemma writes_append: "writes (ws @ ws') s = writes ws' (writes ws s)"
  by (simp add: writes_def)

lemma deliveries_flush: "deliveries (flush s) i = deliveries s i + length (queued s i)"
  by (simp add: flush_def deliveries_def queued_def)

text \<open>
  C9. For a registration in batched mode with nothing queued at the start of the turn: no
  invocation happens while the mutations of the turn are applied, the turn invokes the
  callback at most once, and exactly once as soon as one mutation of the turn is effective
  on a node whose ownership chain holds the registration, whatever the other mutations of
  the turn are.
\<close>

theorem batched_notifications_coalesce:
  assumes "registered_batched s i cb" and "queued s i = []"
  shows "deliveries (writes ws s) i = deliveries s i \<and>
         deliveries (turn s ws) i \<le> deliveries s i + 1 \<and>
         (\<forall>pre n k v rest m.
            ws = pre @ (n, k, v) # rest \<and> n < length (nodes (writes pre s)) \<and>
            map_of (props (nodes (writes pre s) ! n)) k \<noteq> Some v \<and>
            m \<in> set (chain (writes pre s) [] n) \<and>
            (i, cb, False) \<in> set (listeners (nodes (writes pre s) ! m))
            \<longrightarrow> deliveries (turn s ws) i = deliveries s i + 1)"
proof -
  have c: "coalesced s i cb" using assms(2) by (simp add: coalesced_def)
  note a = writes_step[OF assms(1) c, of ws]
  have one: "deliveries (writes ws s) i = deliveries s i" using a by simp
  have "length (queued (writes ws s) i) \<le> 1" using a by (auto simp: coalesced_def)
  then have two: "deliveries (turn s ws) i \<le> deliveries s i + 1"
    using one by (simp add: turn_writes deliveries_flush)
  have three: "deliveries (turn s ws) i = deliveries s i + 1"
    if h: "ws = pre @ (n, k, v) # rest" "n < length (nodes (writes pre s))"
      "map_of (props (nodes (writes pre s) ! n)) k \<noteq> Some v"
      "m \<in> set (chain (writes pre s) [] n)"
      "(i, cb, False) \<in> set (listeners (nodes (writes pre s) ! m))"
    for pre n k v rest m
  proof -
    let ?p = "writes pre s"
    note p = writes_step[OF assms(1) c, of pre]
    have rp: "registered_batched ?p i cb" and cp: "coalesced ?p i cb" using p by simp_all
    have "queued (write_prop ?p n k v) i = [(i, cb)]"
      using write_prop_step[OF rp cp, of n k v] h(2-5) by blast
    moreover have rw: "registered_batched (write_prop ?p n k v) i cb"
      using rp by (simp add: write_prop_registered)
    moreover have cw: "coalesced (write_prop ?p n k v) i cb"
      using write_prop_step[OF rp cp, of n k v] by simp
    ultimately have "queued (writes rest (write_prop ?p n k v)) i = [(i, cb)]"
      using writes_step[OF rw cw, of rest] by simp
    moreover have "writes ws s = writes rest (write_prop ?p n k v)"
      by (simp add: h(1) writes_def)
    ultimately have "length (queued (writes ws s) i) = 1" by simp
    then show ?thesis using one by (simp add: turn_writes deliveries_flush)
  qed
  show ?thesis using one two three by blast
qed

theorem batched_notifications_coalesce_witness:
  "registered_batched example_subscribed 0 7 \<and> queued example_subscribed 0 = [] \<and>
   deliveries (turn example_subscribed three_writes) 0 = 1 \<and>
   delivered (turn example_subscribed three_writes) = [(1, 8), (1, 8), (1, 8), (0, 7)]"
proof -
  have r: "registered_batched example_subscribed 0 7" by code_simp
  have q: "queued example_subscribed 0 = []" by code_simp
  have d: "deliveries example_subscribed 0 = 0" by code_simp
  have l: "delivered (turn example_subscribed three_writes) = [(1, 8), (1, 8), (1, 8), (0, 7)]"
    by code_simp
  have "three_writes = [] @ (1, ''name'', Prim (Str ''b'')) #
          [(1, ''name'', Prim (Str ''c'')), (0, ''count'', Prim (Num 1))] \<and>
        1 < length (nodes (writes [] example_subscribed)) \<and>
        map_of (props (nodes (writes [] example_subscribed) ! 1)) ''name'' \<noteq> Some (Prim (Str ''b'')) \<and>
        0 \<in> set (chain (writes [] example_subscribed) [] 1) \<and>
        (0, 7, False) \<in> set (listeners (nodes (writes [] example_subscribed) ! 0))"
    by code_simp
  with batched_notifications_coalesce[OF r q, of three_writes] d
  have "deliveries (turn example_subscribed three_writes) 0 = 1" by fastforce
  with r q l show ?thesis by simp
qed

subsection \<open>Snapshots\<close>

lemma extends_refl: "extends s s"
  by (simp add: extends_def)

lemma cached_eq:
  "snapCache nd' = snapCache nd \<Longrightarrow> version nd' = version nd \<Longrightarrow> cached nd' = cached nd"
  by (simp add: cached_def split: option.splits)

lemma extends_cached:
  assumes "extends s s'" and "m < length (nodes s)" and "cached (nodes s ! m) = Some q"
  shows "cached (nodes s' ! m) = Some q"
proof -
  from assms(1,2) have v: "version (nodes s' ! m) = version (nodes s ! m)"
    and c: "snapCache (nodes s' ! m) = snapCache (nodes s ! m) \<or> cached (nodes s ! m) = None"
    by (auto simp: extends_def)
  from c assms(3) have "snapCache (nodes s' ! m) = snapCache (nodes s ! m)" by auto
  with v assms(3) show ?thesis using cached_eq[of "nodes s' ! m" "nodes s ! m"] by simp
qed

lemma extends_trans:
  assumes "extends s s'" and "extends s' s''"
  shows "extends s s''"
  unfolding extends_def
proof (intro conjI allI impI)
  show "length (nodes s'') = length (nodes s)"
    using assms by (simp add: extends_def)
  show "length (snaps s) \<le> length (snaps s'')"
    using assms by (simp add: extends_def)
  show "snaps s'' ! a = snaps s ! a" if "a < length (snaps s)" for a
    using assms that by (simp add: extends_def)
  fix m assume m: "m < length (nodes s)"
  then have m': "m < length (nodes s')" using assms(1) by (simp add: extends_def)
  show "props (nodes s'' ! m) = props (nodes s ! m)"
    using assms m m' by (simp add: extends_def)
  show "version (nodes s'' ! m) = version (nodes s ! m)"
    using assms m m' by (simp add: extends_def)
  have v: "version (nodes s' ! m) = version (nodes s ! m)"
    using assms(1) m by (simp add: extends_def)
  have l: "length (snaps s) \<le> length (snaps s')"
    using assms(1) by (simp add: extends_def)
  from assms(1) m have a: "snapCache (nodes s' ! m) = snapCache (nodes s ! m) \<or>
         cached (nodes s ! m) = None \<and>
         (\<exists>q. snapCache (nodes s' ! m) = Some (version (nodes s ! m), q) \<and> length (snaps s) \<le> q)"
    by (simp add: extends_def)
  from assms(2) m' have b: "snapCache (nodes s'' ! m) = snapCache (nodes s' ! m) \<or>
         cached (nodes s' ! m) = None \<and>
         (\<exists>q. snapCache (nodes s'' ! m) = Some (version (nodes s' ! m), q) \<and> length (snaps s') \<le> q)"
    by (simp add: extends_def)
  show "snapCache (nodes s'' ! m) = snapCache (nodes s ! m) \<or>
         cached (nodes s ! m) = None \<and>
         (\<exists>q. snapCache (nodes s'' ! m) = Some (version (nodes s ! m), q) \<and> length (snaps s) \<le> q)"
  proof (cases "snapCache (nodes s' ! m) = snapCache (nodes s ! m)")
    case True
    then have "cached (nodes s' ! m) = cached (nodes s ! m)" using v by (rule cached_eq)
    with b True v l show ?thesis by auto
  next
    case False
    with a obtain q where q: "cached (nodes s ! m) = None"
      "snapCache (nodes s' ! m) = Some (version (nodes s ! m), q)" "length (snaps s) \<le> q"
      by auto
    then have "cached (nodes s' ! m) = Some q" using v by (simp add: cached_def)
    with b have "snapCache (nodes s'' ! m) = snapCache (nodes s' ! m)" by auto
    with q show ?thesis by auto
  qed
qed

lemma extends_begin:
  assumes "n < length (nodes s)" and "cached (nodes s ! n) = None"
  shows "extends s (begin_snapshot s n)"
  using assms
  by (auto simp: extends_def begin_snapshot_def nth_list_update nth_append)

lemma extends_finish:
  assumes "extends s s'" and "length (snaps s) \<le> sa"
  shows "extends s (finish_snapshot s' sa svs)"
  using assms by (auto simp: extends_def finish_snapshot_def)

lemma snapshot_extends:
  "extends s (snd (snapshot s n))"
  "extends s (snd (snapshot_props s kvs))"
proof (induction s n and s kvs rule: snapshot_snapshot_props.induct)
  case (1 s n)
  show ?case
  proof (cases "n < length (nodes s) \<and> cached (nodes s ! n) = None")
    case False
    then have "snd (snapshot s n) = s"
      by (subst snapshot.simps) (auto split: option.splits)
    then show ?thesis by (simp add: extends_refl)
  next
    case True
    obtain svs s' where b: "snapshot_props (begin_snapshot s n) (props (nodes s ! n)) = (svs, s')"
      by (cases "snapshot_props (begin_snapshot s n) (props (nodes s ! n))")
    have "extends (begin_snapshot s n) s'"
      using "1.IH"[of "length (snaps s)"] True b by simp
    moreover have "extends s (begin_snapshot s n)"
      using True by (simp add: extends_begin)
    ultimately have "extends s s'"
      using extends_trans by blast
    then have "extends s (finish_snapshot s' (length (snaps s)) svs)"
      by (rule extends_finish) simp
    moreover have "snapshot s n = (SObj (length (snaps s)), finish_snapshot s' (length (snaps s)) svs)"
      using True b by (subst snapshot.simps) (simp add: Let_def)
    ultimately show ?thesis by simp
  qed
next
  case (2 s)
  then show ?case by (simp add: snapshot_props.simps extends_refl)
next
  case (3 s k v kvs)
  obtain sv s1 where h: "(case v of Prim p \<Rightarrow> (SPrim p, s) | Opaque r \<Rightarrow> (SOpaque r, s)
                           | Wrapped c \<Rightarrow> snapshot s c) = (sv, s1)"
    by (cases "case v of Prim p \<Rightarrow> (SPrim p, s) | Opaque r \<Rightarrow> (SOpaque r, s)
                 | Wrapped c \<Rightarrow> snapshot s c")
  obtain rest s2 where r: "snapshot_props s1 kvs = (rest, s2)"
    by (cases "snapshot_props s1 kvs")
  have a: "extends s s1"
  proof (cases v)
    case (Wrapped c)
    then show ?thesis using "3.IH"(1)[of c] h by simp
  qed (use h in \<open>auto simp: extends_refl\<close>)
  have "extends s1 s2"
    using "3.IH"(2)[OF h[symmetric] refl] r by simp
  with a have "extends s s2" by (rule extends_trans)
  moreover have "snapshot_props s ((k, v) # kvs) = ((k, sv) # rest, s2)"
    using h r by (subst snapshot_props.simps) simp
  ultimately show ?case by simp
qed

lemma snapshot_cached:
  assumes "n < length (nodes s)" and "snapshot s n = (x, s1)"
  shows "\<exists>sa. x = SObj sa \<and> cached (nodes s1 ! n) = Some sa \<and> n < length (nodes s1)"
proof (cases "cached (nodes s ! n)")
  case (Some sa)
  with assms have "x = SObj sa" "s1 = s"
    by (subst (asm) snapshot.simps, simp)+
  with Some assms(1) show ?thesis by simp
next
  case None
  obtain svs s' where b: "snapshot_props (begin_snapshot s n) (props (nodes s ! n)) = (svs, s')"
    by (cases "snapshot_props (begin_snapshot s n) (props (nodes s ! n))")
  have e: "extends (begin_snapshot s n) s'"
    using snapshot_extends(2)[of "begin_snapshot s n" "props (nodes s ! n)"] b by simp
  have c: "cached (nodes (begin_snapshot s n) ! n) = Some (length (snaps s))"
    using assms(1) by (simp add: begin_snapshot_def cached_def)
  have l: "n < length (nodes (begin_snapshot s n))"
    using assms(1) by (simp add: begin_snapshot_def)
  have "cached (nodes s' ! n) = Some (length (snaps s))"
    using extends_cached[OF e l c] .
  moreover have "length (nodes s') = length (nodes s)"
    using e by (simp add: extends_def begin_snapshot_def)
  moreover have "snapshot s n = (SObj (length (snaps s)), finish_snapshot s' (length (snaps s)) svs)"
    using assms(1) None b by (subst snapshot.simps) (simp add: Let_def)
  ultimately show ?thesis using assms by (simp add: finish_snapshot_def)
qed

lemma snapshot_hit:
  "n < length (nodes s) \<Longrightarrow> cached (nodes s ! n) = Some sa \<Longrightarrow> snapshot s n = (SObj sa, s)"
  by (subst snapshot.simps) simp

text \<open>
  C4. The snapshot of a wrapped node is an object cached against the node's version, and
  with no mutation in between every further call returns that same object and leaves the
  state as it is, also after snapshots of other nodes have been taken.
\<close>

theorem snapshot_identity_stable:
  assumes "n < length (nodes s)" and "snapshot s n = (x, s1)"
  shows "\<exists>sa. x = SObj sa \<and> snapCache (nodes s1 ! n) = Some (version (nodes s1 ! n), sa) \<and>
           snapshot s1 n = (x, s1) \<and>
           (\<forall>m y s2. snapshot s1 m = (y, s2) \<longrightarrow> snapshot s2 n = (x, s2))"
proof -
  obtain sa where sa: "x = SObj sa" "cached (nodes s1 ! n) = Some sa" "n < length (nodes s1)"
    using snapshot_cached[OF assms] by blast
  have "snapCache (nodes s1 ! n) = Some (version (nodes s1 ! n), sa)"
    using sa(2) by (auto simp: cached_def split: option.splits if_splits)
  moreover have "snapshot s1 n = (x, s1)"
    using sa by (simp add: snapshot_hit)
  moreover have "snapshot s2 n = (x, s2)" if "snapshot s1 m = (y, s2)" for m y s2
  proof -
    have e: "extends s1 s2" using snapshot_extends(1)[of s1 m] that by simp
    have "cached (nodes s2 ! n) = Some sa" using extends_cached[OF e sa(3) sa(2)] .
    moreover have "n < length (nodes s2)" using e sa(3) by (simp add: extends_def)
    ultimately show ?thesis using sa(1) by (simp add: snapshot_hit)
  qed
  ultimately show ?thesis using sa(1) by blast
qed

theorem snapshot_identity_stable_witness:
  "fst (snapshot example_store 0) = SObj 0 \<and>
   fst (snapshot (snd (snapshot example_store 0)) 0) = SObj 0 \<and>
   fst (snapshot (snd (snapshot (snd (snapshot example_store 0)) 1)) 0) = SObj 0"
proof -
  let ?s1 = "snd (snapshot example_store 0)"
  have n: "0 < length (nodes example_store)" by code_simp
  have x: "fst (snapshot example_store 0) = SObj 0" by code_simp
  then have u: "snapshot example_store 0 = (SObj 0, ?s1)"
    by (metis prod.collapse)
  from snapshot_identity_stable[OF n u]
  have a: "snapshot ?s1 0 = (SObj 0, ?s1)"
    and b: "\<forall>m y s2. snapshot ?s1 m = (y, s2) \<longrightarrow> snapshot s2 0 = (SObj 0, s2)"
    by blast+
  have "snapshot ?s1 1 = (fst (snapshot ?s1 1), snd (snapshot ?s1 1))" by simp
  with b have "snapshot (snd (snapshot ?s1 1)) 0 = (SObj 0, snd (snapshot ?s1 1))" by blast
  with a x show ?thesis by simp
qed

subsection \<open>Selective change detection\<close>




lemma snapCache_update_props [simp]:
  "snapCache ((xs[i := (xs ! i)\<lparr>props := ps\<rparr>]) ! a) = snapCache (xs ! a)"
  by (rule nth_update_same_field) simp

lemma snapCache_update_parent [simp]:
  "snapCache ((xs[i := (xs ! i)\<lparr>parent := p\<rparr>]) ! a) = snapCache (xs ! a)"
  by (rule nth_update_same_field) simp

lemma snapCache_update_version [simp]:
  "snapCache ((xs[i := (xs ! i)\<lparr>version := w\<rparr>]) ! a) = snapCache (xs ! a)"
  by (rule nth_update_same_field) simp

lemma props_update_parent [simp]:
  "props ((xs[i := (xs ! i)\<lparr>parent := p\<rparr>]) ! a) = props (xs ! a)"
  by (rule nth_update_same_field) simp

lemma props_update_version [simp]:
  "props ((xs[i := (xs ! i)\<lparr>version := w\<rparr>]) ! a) = props (xs ! a)"
  by (rule nth_update_same_field) simp

lemma bump_fields [simp]:
  "snapCache (nodes (bump m s) ! a) = snapCache (nodes s ! a)"
  "props (nodes (bump m s) ! a) = props (nodes s ! a)"
  "snaps (bump m s) = snaps s"
  by (simp_all add: bump_def)

lemma fold_bump_fields [simp]:
  "snapCache (nodes (fold bump ms s) ! a) = snapCache (nodes s ! a)"
  "props (nodes (fold bump ms s) ! a) = props (nodes s ! a)"
  "snaps (fold bump ms s) = snaps s"
  by (induction ms arbitrary: s) simp_all

lemma set_parent_fields [simp]:
  "snapCache (nodes (set_parent c p s) ! a) = snapCache (nodes s ! a)"
  "props (nodes (set_parent c p s) ! a) = props (nodes s ! a)"
  "snaps (set_parent c p s) = snaps s"
  by (simp_all add: set_parent_def)

lemma store_prop_fields [simp]:
  "snapCache (nodes (store_prop s n k v) ! a) = snapCache (nodes s ! a)"
  "snaps (store_prop s n k v) = snaps s"
  by (simp_all add: store_prop_def Let_def split: option.splits val.splits)


lemma snaps_deliver [simp]: "snaps (deliver l s) = snaps s"
  by (simp add: deliver_def split: prod.splits)

lemma snaps_fold_deliver [simp]: "snaps (fold deliver ls s) = snaps s"
  by (induction ls arbitrary: s) simp_all

lemma snaps_notify [simp]: "snaps (notify m s) = snaps s"
  by (simp add: notify_def)

lemma snaps_fold_notify [simp]: "snaps (fold notify ms s) = snaps s"
  by (induction ms arbitrary: s) simp_all










lemma extends_current_sval:
  assumes "extends s t" and "current_sval s x = Some sv"
  shows "current_sval t x = Some sv" and "fst (snapshot_val t x) = sv"
proof -
  show "current_sval t x = Some sv"
  proof (cases x)
    case (Wrapped c)
    with assms(2) obtain q where q: "c < length (nodes s)" "cached (nodes s ! c) = Some q" "sv = SObj q"
      by (auto simp: current_sval_def split: if_splits)
    have "cached (nodes t ! c) = Some q" using extends_cached[OF assms(1) q(1,2)] .
    moreover have "c < length (nodes t)" using assms(1) q(1) by (simp add: extends_def)
    ultimately show ?thesis using Wrapped q(3) by (simp add: current_sval_def)
  qed (use assms(2) in \<open>simp_all add: current_sval_def\<close>)
  then show "fst (snapshot_val t x) = sv"
    by (cases x) (auto simp: current_sval_def snapshot_val_def snapshot_hit split: if_splits)
qed

lemma snapshot_val_extends: "extends s (snd (snapshot_val s v))"
  by (cases v) (simp_all add: snapshot_val_def extends_refl snapshot_extends)

lemma snapshot_props_Cons:
  "snapshot_props s ((k, v) # kvs) =
     ((k, fst (snapshot_val s v)) # fst (snapshot_props (snd (snapshot_val s v)) kvs),
      snd (snapshot_props (snd (snapshot_val s v)) kvs))"
  by (subst snapshot_props.simps) (simp add: snapshot_val_def split: prod.splits val.splits)

lemma snapshot_props_absent:
  "map_of kvs a = None \<Longrightarrow> map_of (fst (snapshot_props s kvs)) a = None"
proof (induction kvs arbitrary: s)
  case Nil
  then show ?case by (simp add: snapshot_props.simps)
next
  case (Cons kv kvs)
  obtain k v where kv: "kv = (k, v)" by (cases kv)
  with Cons.prems have "k \<noteq> a" "map_of kvs a = None" by (auto split: if_splits)
  with Cons.IH[of "snd (snapshot_val s v)"] show ?case
    by (simp add: kv snapshot_props_Cons)
qed

lemma snapshot_props_present:
  "map_of kvs a = Some v \<Longrightarrow>
     \<exists>t. extends s t \<and> map_of (fst (snapshot_props s kvs)) a = Some (fst (snapshot_val t v))"
proof (induction kvs arbitrary: s)
  case Nil
  then show ?case by simp
next
  case (Cons kv kvs)
  obtain k w where kv: "kv = (k, w)" by (cases kv)
  show ?case
  proof (cases "k = a")
    case True
    with Cons.prems kv have "w = v" by simp
    with True have "map_of (fst (snapshot_props s (kv # kvs))) a = Some (fst (snapshot_val s v))"
      by (simp add: kv snapshot_props_Cons)
    then show ?thesis using extends_refl by blast
  next
    case False
    with Cons.prems kv have "map_of kvs a = Some v" by simp
    from Cons.IH[OF this, of "snd (snapshot_val s w)"]
    obtain t where t: "extends (snd (snapshot_val s w)) t"
      "map_of (fst (snapshot_props (snd (snapshot_val s w)) kvs)) a = Some (fst (snapshot_val t v))"
      by blast
    have "extends s t" using snapshot_val_extends t(1) by (rule extends_trans)
    moreover have "map_of (fst (snapshot_props s (kv # kvs))) a = Some (fst (snapshot_val t v))"
      using False t(2) by (simp add: kv snapshot_props_Cons)
    ultimately show ?thesis by blast
  qed
qed

lemma snapshot_rebuild:
  assumes "r < length (nodes s)" and "cached (nodes s ! r) = None"
  shows "\<exists>s'. snapshot s r = (SObj (length (snaps s)), s') \<and> extends s s' \<and>
           length (snaps s) < length (snaps s') \<and>
           (map_of (props (nodes s ! r)) a = None \<longrightarrow> map_of (snaps s' ! length (snaps s)) a = None) \<and>
           (\<forall>x. map_of (props (nodes s ! r)) a = Some x \<longrightarrow>
              (\<exists>t. extends (begin_snapshot s r) t \<and>
                   map_of (snaps s' ! length (snaps s)) a = Some (fst (snapshot_val t x))))"
proof -
  let ?b = "begin_snapshot s r"
  let ?sa = "length (snaps s)"
  let ?svs = "fst (snapshot_props ?b (props (nodes s ! r)))"
  let ?s1 = "snd (snapshot_props ?b (props (nodes s ! r)))"
  let ?s' = "finish_snapshot ?s1 ?sa ?svs"
  have sn: "snapshot s r = (SObj ?sa, ?s')"
    using assms by (subst snapshot.simps) (simp add: Let_def split: prod.splits)
  have eb: "extends s ?b" using assms by (rule extends_begin)
  have e1: "extends ?b ?s1" by (rule snapshot_extends)
  have "extends s ?s1" using eb e1 by (rule extends_trans)
  then have es: "extends s ?s'" by (rule extends_finish) simp
  have "length (snaps ?b) \<le> length (snaps ?s1)" using e1 by (simp add: extends_def)
  then have l1: "?sa < length (snaps ?s1)" by (simp add: begin_snapshot_def)
  then have l: "?sa < length (snaps ?s')" by (simp add: finish_snapshot_def)
  have at: "snaps ?s' ! ?sa = ?svs" using l1 by (simp add: finish_snapshot_def)
  have n: "map_of (props (nodes s ! r)) a = None \<longrightarrow> map_of (snaps ?s' ! ?sa) a = None"
    unfolding at by (simp add: snapshot_props_absent)
  have p: "\<forall>x. map_of (props (nodes s ! r)) a = Some x \<longrightarrow>
              (\<exists>t. extends ?b t \<and> map_of (snaps ?s' ! ?sa) a = Some (fst (snapshot_val t x)))"
    unfolding at using snapshot_props_present[of "props (nodes s ! r)" a _ ?b] by blast
  show ?thesis
    by (rule exI[of _ ?s']) (intro conjI sn es l n p)
qed











lemma begin_snapshot_lengths [simp]:
  "length (nodes (begin_snapshot s r)) = length (nodes s)"
  "length (snaps (begin_snapshot s r)) = Suc (length (snaps s))"
  by (simp_all add: begin_snapshot_def)



lemma set_concat_update:
  "set (concat (xs[n := [y]])) \<subseteq> insert y (set (concat xs))"
proof (induction xs arbitrary: n)
  case Nil
  then show ?case by simp
next
  case (Cons x xs)
  show ?case
  proof (cases n)
    case 0
    then show ?thesis by auto
  next
    case (Suc m)
    with Cons.IH[of m] show ?thesis by auto
  qed
qed

lemma distinct_concat_update:
  "distinct (concat xs) \<Longrightarrow> y \<notin> set (concat xs) \<Longrightarrow> distinct (concat (xs[n := [y]]))"
proof (induction xs arbitrary: n)
  case Nil
  then show ?case by simp
next
  case (Cons x xs)
  show ?case
  proof (cases n)
    case 0
    with Cons.prems show ?thesis by auto
  next
    case (Suc m)
    have "distinct (concat (xs[m := [y]]))" using Cons.IH[of m] Cons.prems by simp
    moreover have "set x \<inter> set (concat (xs[m := [y]])) = {}"
      using set_concat_update[of xs m y] Cons.prems by auto
    ultimately show ?thesis using Cons.prems Suc by simp
  qed
qed

lemma cache_addrs_bound:
  assumes "caches_ok s" and "q \<in> set (cache_addrs s)"
  shows "q < length (snaps s)"
proof -
  from assms(2) obtain nd where nd: "nd \<in> set (nodes s)"
    "q \<in> set (case snapCache nd of None \<Rightarrow> [] | Some (ver, q) \<Rightarrow> [q])"
    by (auto simp: cache_addrs_def)
  then obtain ver where "snapCache nd = Some (ver, q)"
    by (cases "snapCache nd") auto
  with assms(1) nd(1) show ?thesis by (auto simp: caches_ok_def list_all_iff)
qed

lemma caches_ok_begin:
  assumes "caches_ok s" and "n < length (nodes s)"
  shows "caches_ok (begin_snapshot s n)"
proof -
  let ?g = "\<lambda>nd. case snapCache nd of None \<Rightarrow> [] | Some (ver, q) \<Rightarrow> [q]"
  let ?nd = "(nodes s ! n)\<lparr>snapCache := Some (version (nodes s ! n), length (snaps s))\<rparr>"
  have ca: "cache_addrs (begin_snapshot s n) = concat ((map ?g (nodes s))[n := [length (snaps s)]])"
    by (simp add: cache_addrs_def begin_snapshot_def map_update)
  have "length (snaps s) \<notin> set (cache_addrs s)"
    using cache_addrs_bound[OF assms(1)] by auto
  then have d: "distinct (cache_addrs (begin_snapshot s n))"
    unfolding ca using assms(1)
    by (intro distinct_concat_update) (simp_all add: caches_ok_def cache_addrs_def)
  have "list_all (\<lambda>nd. case snapCache nd of None \<Rightarrow> True
                  | Some (ver, q) \<Rightarrow> ver \<le> version nd \<and> q < length (snaps (begin_snapshot s n)))
          (nodes (begin_snapshot s n))"
    unfolding list_all_length
  proof (intro allI impI)
    fix m assume "m < length (nodes (begin_snapshot s n))"
    then have m: "m < length (nodes s)" by simp
    show "case snapCache (nodes (begin_snapshot s n) ! m) of None \<Rightarrow> True
            | Some (ver, q) \<Rightarrow> ver \<le> version (nodes (begin_snapshot s n) ! m)
                               \<and> q < length (snaps (begin_snapshot s n))"
    proof (cases "m = n")
      case True
      with m show ?thesis by (simp add: begin_snapshot_def)
    next
      case False
      with m assms(1) show ?thesis
        by (auto simp: begin_snapshot_def caches_ok_def list_all_length split: option.splits)
    qed
  qed
  with d show ?thesis by (simp add: caches_ok_def)
qed

lemma caches_ok_finish:
  "caches_ok s \<Longrightarrow> caches_ok (finish_snapshot s sa svs)"
  by (auto simp: caches_ok_def cache_addrs_def finish_snapshot_def list_all_length
           split: option.splits)

lemma caches_ok_snapshot:
  "caches_ok s \<Longrightarrow> caches_ok (snd (snapshot s n))"
  "caches_ok s \<Longrightarrow> caches_ok (snd (snapshot_props s kvs))"
proof (induction s n and s kvs rule: snapshot_snapshot_props.induct)
  case (1 s n)
  show ?case
  proof (cases "n < length (nodes s) \<and> cached (nodes s ! n) = None")
    case False
    then have "snd (snapshot s n) = s"
      by (subst snapshot.simps) (auto split: option.splits)
    with "1.prems" show ?thesis by simp
  next
    case True
    obtain svs s' where b: "snapshot_props (begin_snapshot s n) (props (nodes s ! n)) = (svs, s')"
      by (cases "snapshot_props (begin_snapshot s n) (props (nodes s ! n))")
    have "caches_ok (begin_snapshot s n)" using "1.prems" True by (simp add: caches_ok_begin)
    then have "caches_ok s'"
      using "1.IH"[of "length (snaps s)"] True b by simp
    then have "caches_ok (finish_snapshot s' (length (snaps s)) svs)"
      by (rule caches_ok_finish)
    moreover have "snapshot s n = (SObj (length (snaps s)), finish_snapshot s' (length (snaps s)) svs)"
      using True b by (subst snapshot.simps) (simp add: Let_def)
    ultimately show ?thesis by simp
  qed
next
  case (2 s)
  then show ?case by (simp add: snapshot_props.simps)
next
  case (3 s k v kvs)
  have a: "caches_ok (snd (snapshot_val s v))"
  proof (cases v)
    case (Wrapped c)
    then show ?thesis using "3.IH"(1)[of c] "3.prems" by (simp add: snapshot_val_def)
  qed (use "3.prems" in \<open>auto simp: snapshot_val_def\<close>)
  have "caches_ok (snd (snapshot_props (snd (snapshot_val s v)) kvs))"
    using "3.IH"(2)[of "snapshot_val s v" "fst (snapshot_val s v)" "snd (snapshot_val s v)"] a
    by (simp add: snapshot_val_def)
  then show ?case by (simp add: snapshot_props_Cons)
qed



lemma snapshot_props_present_after:
  "map_of kvs a = Some v \<Longrightarrow>
     \<exists>t. extends s t \<and> extends (snd (snapshot_val t v)) (snd (snapshot_props s kvs)) \<and>
         map_of (fst (snapshot_props s kvs)) a = Some (fst (snapshot_val t v))"
proof (induction kvs arbitrary: s)
  case Nil
  then show ?case by simp
next
  case (Cons kv kvs)
  obtain k w where kv: "kv = (k, w)" by (cases kv)
  show ?case
  proof (cases "k = a")
    case True
    with Cons.prems kv have wv: "w = v" by simp
    have "extends s s" by (rule extends_refl)
    moreover have "extends (snd (snapshot_val s v)) (snd (snapshot_props s (kv # kvs)))"
      by (simp add: kv wv snapshot_props_Cons snapshot_extends)
    moreover have "map_of (fst (snapshot_props s (kv # kvs))) a = Some (fst (snapshot_val s v))"
      using True by (simp add: kv wv snapshot_props_Cons)
    ultimately show ?thesis by blast
  next
    case False
    with Cons.prems kv have "map_of kvs a = Some v" by simp
    from Cons.IH[OF this, of "snd (snapshot_val s w)"]
    obtain t where t: "extends (snd (snapshot_val s w)) t"
      "extends (snd (snapshot_val t v)) (snd (snapshot_props (snd (snapshot_val s w)) kvs))"
      "map_of (fst (snapshot_props (snd (snapshot_val s w)) kvs)) a = Some (fst (snapshot_val t v))"
      by blast
    have "extends s t" using snapshot_val_extends t(1) by (rule extends_trans)
    moreover have "extends (snd (snapshot_val t v)) (snd (snapshot_props s (kv # kvs)))"
      using t(2) by (simp add: kv snapshot_props_Cons)
    moreover have "map_of (fst (snapshot_props s (kv # kvs))) a = Some (fst (snapshot_val t v))"
      using False t(3) by (simp add: kv snapshot_props_Cons)
    ultimately show ?thesis by blast
  qed
qed

lemma snapshot_val_current:
  assumes "\<forall>c. v = Wrapped c \<longrightarrow> c < length (nodes t)"
  shows "current_sval (snd (snapshot_val t v)) v = Some (fst (snapshot_val t v))"
proof (cases v)
  case (Wrapped c)
  with assms have c: "c < length (nodes t)" by simp
  from snapshot_cached[OF c, of "fst (snapshot t c)" "snd (snapshot t c)"]
  show ?thesis using Wrapped by (auto simp: snapshot_val_def current_sval_def)
qed (simp_all add: snapshot_val_def current_sval_def)

lemma current_sval_finish [simp]:
  "current_sval (finish_snapshot s sa svs) v = current_sval s v"
  by (cases v) (simp_all add: current_sval_def finish_snapshot_def)

lemma rebuilt_view_current:
  assumes r: "r < length (nodes s)" and none: "cached (nodes s ! r) = None"
    and val: "\<forall>c. map_of (props (nodes s ! r)) a = Some (Wrapped c) \<longrightarrow> c < length (nodes s)"
  shows "view_current (snd (snapshot s r)) r (length (snaps s)) a"
proof -
  let ?b = "begin_snapshot s r"
  let ?sa = "length (snaps s)"
  let ?ps = "props (nodes s ! r)"
  let ?svs = "fst (snapshot_props ?b ?ps)"
  let ?s1 = "snd (snapshot_props ?b ?ps)"
  let ?s' = "finish_snapshot ?s1 ?sa ?svs"
  have sn: "snapshot s r = (SObj ?sa, ?s')"
    using r none by (subst snapshot.simps) (simp add: Let_def split: prod.splits)
  have e1: "extends ?b ?s1" by (rule snapshot_extends)
  have eb: "extends s ?b" using r none by (rule extends_begin)
  have es: "extends s ?s1" using eb e1 by (rule extends_trans)
  have l1: "?sa < length (snaps ?s1)" using e1 by (simp add: extends_def)
  have at: "snaps ?s' ! ?sa = ?svs" using l1 by (simp add: finish_snapshot_def)
  have lq: "?sa < length (snaps ?s')" using l1 by (simp add: finish_snapshot_def)
  have pr: "props (nodes ?s' ! r) = ?ps" using es r by (simp add: extends_def finish_snapshot_def)
  have cb: "cached (nodes ?b ! r) = Some ?sa" using r by (simp add: begin_snapshot_def cached_def)
  have "cached (nodes ?s1 ! r) = Some ?sa" using extends_cached[OF e1 _ cb] r by simp
  then have cr: "cached (nodes ?s' ! r) = Some ?sa" by (simp add: finish_snapshot_def)
  have ec: "entry_current ?s' r ?sa a"
  proof (cases "map_of ?ps a")
    case None
    then show ?thesis
      unfolding entry_current_def pr at using lq
      by (simp add: snapshot_props_absent)
  next
    case (Some x)
    from snapshot_props_present_after[OF Some, of ?b]
    obtain t where t: "extends ?b t" "extends (snd (snapshot_val t x)) ?s1"
      "map_of ?svs a = Some (fst (snapshot_val t x))"
      by blast
    have "\<forall>c. x = Wrapped c \<longrightarrow> c < length (nodes t)"
      using val Some t(1) by (auto simp: extends_def)
    then have "current_sval (snd (snapshot_val t x)) x = Some (fst (snapshot_val t x))"
      by (rule snapshot_val_current)
    with t(2) have "current_sval ?s1 x = Some (fst (snapshot_val t x))"
      by (rule extends_current_sval)
    with Some t(3) show ?thesis
      unfolding entry_current_def pr at using lq
      by simp
  qed
  with cr show ?thesis unfolding sn by (simp add: view_current_def)
qed





text \<open>
  The assumptions of the next theorem are those a consumer is in after its first read of
  a node that has no current snapshot yet.
\<close>

lemma first_render_establishes:
  assumes "r < length (nodes s)" and "caches_ok s" and "cached (nodes s ! r) = None"
    and "\<forall>c. map_of (props (nodes s ! r)) a = Some (Wrapped c) \<longrightarrow> c < length (nodes s)"
  shows "getSnapshot cmp r mounted s =
           (SObj (length (snaps s)), mounted\<lparr>prevSnapshot := SObj (length (snaps s))\<rparr>,
            snd (snapshot s r)) \<and>
         caches_ok (snd (snapshot s r)) \<and>
         view_current (snd (snapshot s r)) r (length (snaps s)) a"
proof -
  from snapshot_rebuild[OF assms(1,3), of a]
  have f: "fst (snapshot s r) = SObj (length (snaps s))" by auto
  have "getSnapshot cmp r mounted s =
          (fst (snapshot s r), mounted\<lparr>prevSnapshot := fst (snapshot s r)\<rparr>, snd (snapshot s r))"
    by (simp add: getSnapshot_def not_changed_def mounted_def split: prod.splits)
  moreover have "caches_ok (snd (snapshot s r))"
    using assms(2) by (rule caches_ok_snapshot)
  moreover have "view_current (snd (snapshot s r)) r (length (snaps s)) a"
    using assms(1,3,4) by (rule rebuilt_view_current)
  ultimately show ?thesis using f by simp
qed



end
